theory Spec2Isabelle
  imports Main "HOL-Library.AList" "HOL-Library.Sublist"
begin

section \<open>Names: the string functions of rename\_files.py\<close>

text \<open>
  A file or directory name is a \<^typ>\<open>string\<close>. The characters of the model are the
  ASCII ones: on them \<^verbatim>\<open>str.upper\<close>, \<^verbatim>\<open>str.lower\<close>, the class \<^verbatim>\<open>\d\<close> and
  \<^verbatim>\<open>re.IGNORECASE\<close> are the functions below. Python applies the Unicode tables to
  characters beyond ASCII (there are digits and a long s among them); those characters
  are left as they are here, so the functions below are those of Python on the names
  that \<open>ascii\<close> holds of, and what is proved of the name a folder or a file gets is
  stated for these names.
\<close>

type_synonym name = string

definition ascii :: "string \<Rightarrow> bool" where
  "ascii s = list_all (\<lambda>c. (of_char c :: nat) < 128) s"

definition is_digit :: "char \<Rightarrow> bool" where
  "is_digit c = (48 \<le> (of_char c :: nat) \<and> (of_char c :: nat) \<le> 57)"

definition upper_char :: "char \<Rightarrow> char" where
  "upper_char c =
     (if 97 \<le> (of_char c :: nat) \<and> (of_char c :: nat) \<le> 122
      then char_of ((of_char c :: nat) - 32) else c)"

definition lower_char :: "char \<Rightarrow> char" where
  "lower_char c =
     (if 65 \<le> (of_char c :: nat) \<and> (of_char c :: nat) \<le> 90
      then char_of ((of_char c :: nat) + 32) else c)"

definition upper :: "string \<Rightarrow> string" where
  "upper s = map upper_char s"

definition lower :: "string \<Rightarrow> string" where
  "lower s = map lower_char s"

definition startswith :: "string \<Rightarrow> string \<Rightarrow> bool" where
  "startswith s p = (take (length p) s = p)"

definition endswith :: "string \<Rightarrow> string \<Rightarrow> bool" where
  "endswith s p = (length p \<le> length s \<and> drop (length s - length p) s = p)"

text \<open>
  \<^verbatim>\<open>re.findall(r'\d+', dir_name)\<close>: the maximal runs of digits, left to right.
\<close>

function findall_digits :: "string \<Rightarrow> string list" where
  "findall_digits [] = []"
| "findall_digits (c # cs) =
     (if is_digit c
      then (c # takeWhile is_digit cs) # findall_digits (dropWhile is_digit cs)
      else findall_digits cs)"
  by pat_completeness auto
termination
  by (relation "measure length") (auto simp: length_dropWhile_le less_Suc_eq_le)

text \<open>
  \<^verbatim>\<open>int(s)\<close> on a string of digits and \<^verbatim>\<open>str(n)\<close> on a natural number. Python's
  integers are unbounded, and so is \<^typ>\<open>nat\<close>.
\<close>

definition py_int :: "string \<Rightarrow> nat" where
  "py_int s = foldl (\<lambda>a c. 10 * a + ((of_char c :: nat) - 48)) 0 s"

fun py_str :: "nat \<Rightarrow> string" where
  "py_str n =
     (if n < 10 then [char_of (48 + n)]
      else py_str (n div 10) @ [char_of (48 + n mod 10)])"

declare py_str.simps [simp del]

text \<open>
  Lines 86 to 90 as a function of the name alone: the new name the loop of Pass A computes
  for a folder, \<open>None\<close> for a folder it leaves alone (no prefix, or no digit run).
\<close>

definition folder_new_name :: "name \<Rightarrow> name option" where
  "folder_new_name dir_name =
     (if startswith (upper dir_name) ''AC''
      then (let numbers = findall_digits dir_name in
            if numbers \<noteq> [] then Some (py_str (py_int (hd numbers))) else None)
      else None)"

text \<open>
  Line 120: \<^verbatim>\<open>re.match(r'^(S\d{2})A(\d{3})(\d{4})\.pdf$', filename, re.IGNORECASE)\<close>.
  The pattern has a fixed length, so the match is a comparison position by position. Without
  \<^verbatim>\<open>re.MULTILINE\<close> the anchor \<^verbatim>\<open>$\<close> matches at the end of the string and also just
  before a newline that ends the string. The result is the three groups.
\<close>

definition re_match_pdf :: "name \<Rightarrow> (string \<times> string \<times> string) option" where
  "re_match_pdf filename =
     (let g1 = take 3 filename;
          a = take 1 (drop 3 filename);
          g2 = take 3 (drop 4 filename);
          g3 = take 4 (drop 7 filename);
          ext = take 4 (drop 11 filename);
          rest = drop 15 filename
      in if length g1 = 3 \<and> upper (take 1 g1) = ''S'' \<and> list_all is_digit (drop 1 g1)
            \<and> upper a = ''A''
            \<and> length g2 = 3 \<and> list_all is_digit g2
            \<and> length g3 = 4 \<and> list_all is_digit g3
            \<and> upper ext = ''.PDF''
            \<and> (rest = [] \<or> rest = [CHR 0x0A])
         then Some (g1, g2, g3) else None)"

text \<open>
  Lines 123 to 127: the new file name, from the three groups of the match.
\<close>

definition new_filename :: "string \<times> string \<times> string \<Rightarrow> name" where
  "new_filename g =
     (case g of (g1, g2, g3) \<Rightarrow>
        (let part1 = upper g1; part2_num = py_int g2; part3_num = py_int g3
         in part1 @ ''_'' @ py_str part2_num @ ''_'' @ py_str part3_num @ ''.pdf''))"

text \<open>
  Lines 119 to 127 as a function of the name alone: the new name the loop of Pass B computes
  for an entry, \<open>None\<close> for an entry it leaves alone.
\<close>

definition file_new_name :: "name \<Rightarrow> name option" where
  "file_new_name filename =
     (if endswith (lower filename) ''.pdf''
      then map_option new_filename (re_match_pdf filename)
      else None)"

section \<open>The working directory\<close>

text \<open>
  The extracted tree under \<^verbatim>\<open>temp_dir\<close>. A directory lists its entries in the order
  \<^verbatim>\<open>os.scandir\<close> and \<^verbatim>\<open>os.listdir\<close> return them; a file holds its bytes. A path is the
  list of names below \<^verbatim>\<open>temp_dir\<close>, so \<^verbatim>\<open>os.path.join(root, name)\<close> is
  \<open>root @ [name]\<close>. \<^verbatim>\<open>zipfile\<close> extracts a symbolic link as a regular file, so
  the tree has files and directories only.
\<close>

type_synonym path = "name list"

datatype node = File string | Dir "(name \<times> node) list"

type_synonym entries = "(name \<times> node) list"

datatype oserror =
    FileNotFoundError | NotADirectoryError | IsADirectoryError | DirectoryNotEmpty
  | OSError | ValueError

fun is_dir :: "node \<Rightarrow> bool" where
  "is_dir (Dir es) = True"
| "is_dir (File b) = False"

definition dir_names :: "entries \<Rightarrow> name list" where
  "dir_names es = map fst (filter (\<lambda>e. is_dir (snd e)) es)"

definition path_exists :: "entries \<Rightarrow> name \<Rightarrow> bool" where
  "path_exists es n = (map_of es n \<noteq> None)"

definition rename_entry :: "entries \<Rightarrow> name \<Rightarrow> name \<Rightarrow> entries" where
  "rename_entry es src dst = map (\<lambda>e. if fst e = src then (dst, snd e) else e) es"

definition delete_entry :: "entries \<Rightarrow> name \<Rightarrow> entries" where
  "delete_entry es n = filter (\<lambda>e. fst e \<noteq> n) es"

text \<open>
  The names of a directory are distinct, at every level: the trees a file system holds.
\<close>

fun wf_node :: "node \<Rightarrow> bool" where
  "wf_node (File b) = True"
| "wf_node (Dir es) = (distinct (map fst es) \<and> list_all (\<lambda>e. wf_node (snd e)) es)"


fun lookup :: "node \<Rightarrow> path \<Rightarrow> node option" where
  "lookup nd [] = Some nd"
| "lookup (File b) (n # p) = None"
| "lookup (Dir es) (n # p) = (case map_of es n of None \<Rightarrow> None | Some c \<Rightarrow> lookup c p)"

fun update_at :: "node \<Rightarrow> path \<Rightarrow> node \<Rightarrow> node" where
  "update_at nd [] new = new"
| "update_at (File b) (n # p) new = File b"
| "update_at (Dir es) (n # p) new =
     Dir (map (\<lambda>e. if fst e = n then (fst e, update_at (snd e) p new) else e) es)"

text \<open>
  The operating system may refuse a move (permissions, a busy directory): \<open>fails\<close> says of
  which source paths. A refused move changes nothing. \<^verbatim>\<open>shutil.move(src, dst)\<close> is
  called at line 96 only when nothing exists at \<open>dst\<close>, where it is a rename of the entry.
\<close>

definition shutil_move ::
  "(path \<Rightarrow> bool) \<Rightarrow> path \<Rightarrow> entries \<Rightarrow> name \<Rightarrow> name \<Rightarrow> oserror + entries" where
  "shutil_move fails root es src dst =
     (if fails (root @ [src]) then Inl OSError
      else if map_of es src = None then Inl FileNotFoundError
      else Inr (rename_entry es src dst))"

text \<open>
  \<^verbatim>\<open>os.rename(src, dst)\<close> as POSIX has it: a file replaces a file, a directory replaces
  an empty directory, and the other collisions raise.
\<close>

definition os_rename ::
  "(path \<Rightarrow> bool) \<Rightarrow> path \<Rightarrow> entries \<Rightarrow> name \<Rightarrow> name \<Rightarrow> oserror + entries" where
  "os_rename fails folder es src dst =
     (if fails (folder @ [src]) then Inl OSError
      else case map_of es src of
        None \<Rightarrow> Inl FileNotFoundError
      | Some nd \<Rightarrow>
          (if src = dst then Inr es
           else case map_of es dst of
             None \<Rightarrow> Inr (rename_entry es src dst)
           | Some (File b) \<Rightarrow>
               (if is_dir nd then Inl NotADirectoryError
                else Inr (rename_entry (delete_entry es dst) src dst))
           | Some (Dir ds) \<Rightarrow>
               (if \<not> is_dir nd then Inl IsADirectoryError
                else if ds \<noteq> [] then Inl DirectoryNotEmpty
                else Inr (rename_entry (delete_entry es dst) src dst))))"

definition os_listdir :: "node \<Rightarrow> path \<Rightarrow> oserror + name list" where
  "os_listdir fs p =
     (case lookup fs p of
        None \<Rightarrow> Inl FileNotFoundError
      | Some (File b) \<Rightarrow> Inl NotADirectoryError
      | Some (Dir es) \<Rightarrow> Inr (map fst es))"

text \<open>Lines 57 to 60: the base path is the single top-level directory, when there is one.\<close>

definition detect_base :: "node \<Rightarrow> path" where
  "detect_base fs =
     (case fs of
        Dir [(n, Dir es)] \<Rightarrow> [n]
      | _ \<Rightarrow> [])"

section \<open>Pass A: renaming folders\<close>

text \<open>
  The messages of the two loops (\<^verbatim>\<open>st.write\<close>, \<^verbatim>\<open>st.warning\<close>, \<^verbatim>\<open>st.info\<close>,
  \<^verbatim>\<open>st.markdown\<close>), with the names they print.
\<close>

datatype event =
    FolderSkippedExists name name
  | FolderRenamed name name
  | FolderFailed name
  | NoFoldersRenamed
  | ScanningFolder name
  | FileRenamed name name
  | FileFailed name
  | FileSkipped name

text \<open>
  The variables of Pass A. \<open>renamed_folder_map\<close> is the dict of line 82, in insertion order:
  an assignment to a key it has replaces the value where it stands, and a new key goes last
  (\<^const>\<open>AList.update\<close>). The last two fields are not variables of the program: \<open>visited\<close>
  records the directories \<^verbatim>\<open>os.walk\<close> yields, and \<open>examined\<close> the path of each
  \<^verbatim>\<open>dir_name\<close> the inner loop runs on.
\<close>

record stateA =
  renamed_folder_map :: "(path \<times> path) list"
  folders_renamed_count :: nat
  logA :: "event list"
  visited :: "path list"
  examined :: "path list"

definition initA :: stateA where
  "initA = \<lparr>renamed_folder_map = [], folders_renamed_count = 0, logA = [],
            visited = [], examined = []\<rparr>"

text \<open>
  Lines 86 to 102, the body of the inner loop, on the entries of \<open>root\<close>, the list \<open>dirs\<close>
  that \<^verbatim>\<open>os.walk\<close> will descend into, and the variables. \<^verbatim>\<open>dirs.remove\<close> raises
  \<^verbatim>\<open>ValueError\<close> inside the \<^verbatim>\<open>try\<close> when the name is not in the list.
\<close>

definition folder_step ::
  "(path \<Rightarrow> bool) \<Rightarrow> path \<Rightarrow> name \<Rightarrow> entries \<times> name list \<times> stateA
     \<Rightarrow> entries \<times> name list \<times> stateA" where
  "folder_step fails root dir_name = (\<lambda>(es, dirs, s0).
     let s = s0\<lparr>examined := examined s0 @ [root @ [dir_name]]\<rparr> in
     if startswith (upper dir_name) ''AC'' then
       (let original_path = root @ [dir_name];
            numbers = findall_digits dir_name in
        if numbers \<noteq> [] then
          (let new_name = py_str (py_int (hd numbers));
               new_path = root @ [new_name] in
           if path_exists es new_name then
             (es, dirs, s\<lparr>logA := logA s @ [FolderSkippedExists dir_name new_name]\<rparr>)
           else
             (case shutil_move fails root es dir_name new_name of
                Inl e \<Rightarrow> (es, dirs, s\<lparr>logA := logA s @ [FolderFailed dir_name]\<rparr>)
              | Inr es' \<Rightarrow>
                  (let s' = s\<lparr>logA := logA s @ [FolderRenamed dir_name new_name],
                              folders_renamed_count := folders_renamed_count s + 1,
                              renamed_folder_map :=
                                AList.update original_path new_path (renamed_folder_map s)\<rparr>
                   in if dir_name \<in> set dirs then (es', remove1 dir_name dirs, s')
                      else (es', dirs, s'\<lparr>logA := logA s' @ [FolderFailed dir_name]\<rparr>))))
        else (es, dirs, s))
     else (es, dirs, s))"

text \<open>Line 85: the inner loop runs on a copy of \<open>dirs\<close>.\<close>

definition folder_loop ::
  "(path \<Rightarrow> bool) \<Rightarrow> path \<Rightarrow> entries \<Rightarrow> stateA \<Rightarrow> entries \<times> name list \<times> stateA" where
  "folder_loop fails root es s =
     (let dirs = dir_names es in fold (folder_step fails root) dirs (es, dirs, s))"


text \<open>
  The loop renames entries and never touches what they hold, which is what the walk below
  needs to terminate.
\<close>

lemma map_snd_rename_entry: "map snd (rename_entry es src dst) = map snd es"
  by (simp add: rename_entry_def comp_def if_distrib[of snd] cong: if_cong)

lemma map_snd_folder_step:
  "map snd (fst (folder_step fails root d st)) = map snd (fst st)"
  by (cases st)
     (auto simp: folder_step_def shutil_move_def map_snd_rename_entry Let_def
           split: if_splits sum.splits)

lemma map_snd_fold_folder_step:
  "map snd (fst (fold (folder_step fails root) ds st)) = map snd (fst st)"
  by (induction ds arbitrary: st) (simp_all add: map_snd_folder_step)

lemma map_snd_folder_loop:
  "map snd (fst (folder_loop fails root es s)) = map snd es"
  by (simp add: folder_loop_def Let_def map_snd_fold_folder_step)

lemma size_map_of:
  "map_of es d = Some c \<Longrightarrow> size c < Suc (size_list (size_prod (\<lambda>_. 0) size) es)"
  by (induction es) (auto split: if_splits)

lemma size_entries:
  "size_list (size_prod (\<lambda>_. 0) size) es = size_list (\<lambda>c. Suc (size c)) (map snd es)"
  by (induction es) auto

lemma size_folder_loop:
  "(es1, r) = folder_loop fails root es s \<Longrightarrow>
   size_list (size_prod (\<lambda>_. 0) size) es1 = size_list (size_prod (\<lambda>_. 0) size) es"
proof -
  assume a: "(es1, r) = folder_loop fails root es s"
  have "map snd es1 = map snd es"
    using map_snd_folder_loop[of fails root es s] a[symmetric] by simp
  then show ?thesis by (simp only: size_entries)
qed

text \<open>
  Line 84: \<^verbatim>\<open>os.walk(base_path)\<close>, top down. \<open>walkA\<close> is the walk from the directory
  at \<open>root\<close>: it yields \<open>root\<close> with the names of its subdirectories, the loop body runs
  and may rename entries and remove names from \<open>dirs\<close>, and the walk then goes into
  \<open>root/d\<close> for each \<open>d\<close> left in \<open>dirs\<close>, in order. A name in \<open>dirs\<close> that is no longer a
  directory is skipped (\<^verbatim>\<open>os.walk\<close> ignores the error of \<^verbatim>\<open>scandir\<close>). The walk of
  \<open>root\<close> reads and writes below \<open>root\<close> only, so it is a function of the node at \<open>root\<close>,
  and returns the node as the walk leaves it; \<open>descendA\<close> reads each child from the entries
  \<open>es1\<close> as the loop body left them, and stores the walked child in \<open>acc\<close>.
\<close>

function walkA :: "(path \<Rightarrow> bool) \<Rightarrow> path \<Rightarrow> node \<Rightarrow> stateA \<Rightarrow> node \<times> stateA"
  and descendA ::
    "(path \<Rightarrow> bool) \<Rightarrow> path \<Rightarrow> entries \<Rightarrow> name list \<Rightarrow> entries \<Rightarrow> stateA
       \<Rightarrow> entries \<times> stateA"
where
  "walkA fails root (File b) s = (File b, s)"
| "walkA fails root (Dir es) s =
     (case folder_loop fails root es (s\<lparr>visited := visited s @ [root]\<rparr>) of
        (es1, dirs1, s1) \<Rightarrow>
          (case descendA fails root es1 dirs1 es1 s1 of (es2, s2) \<Rightarrow> (Dir es2, s2)))"
| "descendA fails root es1 [] acc s = (acc, s)"
| "descendA fails root es1 (d # ds) acc s =
     (case map_of es1 d of
        None \<Rightarrow> descendA fails root es1 ds acc s
      | Some c \<Rightarrow>
          (case walkA fails (root @ [d]) c s of
             (c', s') \<Rightarrow> descendA fails root es1 ds (AList.update d c' acc) s'))"
  by pat_completeness auto
termination
  apply (relation "measures [
    (\<lambda>x. case x of Inl (fails, root, nd, s) \<Rightarrow> size nd
                   | Inr (fails, root, es1, ds, acc, s) \<Rightarrow>
                       Suc (size_list (size_prod (\<lambda>_. 0) size) es1)),
    (\<lambda>x. case x of Inl (fails, root, nd, s) \<Rightarrow> Suc (Suc 0)
                   | Inr (fails, root, es1, ds, acc, s) \<Rightarrow> 0),
    (\<lambda>x. case x of Inl (fails, root, nd, s) \<Rightarrow> 0
                   | Inr (fails, root, es1, ds, acc, s) \<Rightarrow> length ds)]")
      apply simp
     apply (simp add: size_folder_loop)
    apply simp
   apply (simp add: size_map_of)
  apply simp
  done

text \<open>Lines 81 to 102: Pass A, on the whole tree and from the base path.\<close>

definition passA :: "(path \<Rightarrow> bool) \<Rightarrow> node \<Rightarrow> path \<Rightarrow> node \<times> stateA" where
  "passA fails fs base_path =
     (case lookup fs base_path of
        None \<Rightarrow> (fs, initA)
      | Some nd \<Rightarrow>
          (case walkA fails base_path nd initA of
             (nd', s) \<Rightarrow> (update_at fs base_path nd', s)))"

section \<open>Pass B: renaming files\<close>

text \<open>
  The variables of Pass B; \<open>scanned\<close> is not a variable of the program and records the
  folders the outer loop lists.
\<close>

record stateB =
  files_renamed_count :: nat
  logB :: "event list"
  scanned :: "path list"

definition initB :: stateB where
  "initB = \<lparr>files_renamed_count = 0, logB = [], scanned = []\<rparr>"

text \<open>Lines 119 to 139, the body of the inner loop, on the entries of the folder.\<close>

definition file_step ::
  "(path \<Rightarrow> bool) \<Rightarrow> path \<Rightarrow> name \<Rightarrow> entries \<times> stateB \<Rightarrow> entries \<times> stateB" where
  "file_step fails folder_path filename = (\<lambda>(es, s).
     if endswith (lower filename) ''.pdf'' then
       (case re_match_pdf filename of
          Some g \<Rightarrow>
            (let new_filename = new_filename g in
             case os_rename fails folder_path es filename new_filename of
               Inr es' \<Rightarrow>
                 (es', s\<lparr>logB := logB s @ [FileRenamed filename new_filename],
                         files_renamed_count := files_renamed_count s + 1\<rparr>)
             | Inl e \<Rightarrow> (es, s\<lparr>logB := logB s @ [FileFailed filename]\<rparr>))
        | None \<Rightarrow> (es, s\<lparr>logB := logB s @ [FileSkipped filename]\<rparr>))
     else (es, s))"

text \<open>
  Lines 114 to 118: the outer loop. \<^verbatim>\<open>os.listdir\<close> is outside every \<^verbatim>\<open>try\<close>, so its
  error ends the run.
\<close>

fun passB_loop ::
  "(path \<Rightarrow> bool) \<Rightarrow> path list \<Rightarrow> node \<times> stateB \<Rightarrow> oserror + node \<times> stateB" where
  "passB_loop fails [] st = Inr st"
| "passB_loop fails (folder_path # rest) (fs, s0) =
     (let s = s0\<lparr>logB := logB s0 @ [ScanningFolder (last folder_path)],
                 scanned := scanned s0 @ [folder_path]\<rparr> in
      case os_listdir fs folder_path of
        Inl e \<Rightarrow> Inl e
      | Inr names \<Rightarrow>
          (case lookup fs folder_path of
             Some (Dir es) \<Rightarrow>
               (case fold (file_step fails folder_path) names (es, s) of
                  (es', s') \<Rightarrow>
                    passB_loop fails rest (update_at fs folder_path (Dir es'), s'))
           | _ \<Rightarrow> Inl NotADirectoryError))"

text \<open>Lines 108 to 139: Pass B, on the values of the dict that Pass A left.\<close>

definition passB ::
  "(path \<Rightarrow> bool) \<Rightarrow> node \<Rightarrow> stateA \<Rightarrow> oserror + node \<times> stateB" where
  "passB fails fs sA =
     (let final_renamed_paths = map snd (renamed_folder_map sA);
          s = (if final_renamed_paths = [] then initB\<lparr>logB := [NoFoldersRenamed]\<rparr> else initB)
      in passB_loop fails final_renamed_paths (fs, s))"

section \<open>The archive\<close>

text \<open>
  An archive is the list of its members, a name and the bytes; the name is the path relative
  to the extraction root. Compression is lossless and not modelled. Lines 152 to 156: the
  walk of \<^verbatim>\<open>temp_dir\<close> writes the files of each directory, then goes into its
  subdirectories.
\<close>

type_synonym archive = "(path \<times> string) list"

fun zip_walk :: "path \<Rightarrow> node \<Rightarrow> archive" where
  "zip_walk root (File b) = []"
| "zip_walk root (Dir es) =
     concat (map (\<lambda>e. case snd e of File b \<Rightarrow> [(root @ [fst e], b)] | Dir ds \<Rightarrow> []) es)
     @ concat (map (\<lambda>e. zip_walk (root @ [fst e]) (snd e)) (filter (\<lambda>e. is_dir (snd e)) es))"

definition repackage :: "node \<Rightarrow> archive" where
  "repackage fs = zip_walk [] fs"

text \<open>
  \<^verbatim>\<open>ZipFile.extractall\<close> on an archive of files, into an empty directory: each member
  creates the directories of its path that are missing and writes the file; a file where a
  directory is needed, or a directory where the file goes, raises.
\<close>

fun extract_member :: "node \<Rightarrow> path \<Rightarrow> string \<Rightarrow> oserror + node" where
  "extract_member nd [] b = Inl IsADirectoryError"
| "extract_member (File x) (n # p) b = Inl NotADirectoryError"
| "extract_member (Dir es) [n] b =
     (case map_of es n of
        None \<Rightarrow> Inr (Dir (es @ [(n, File b)]))
      | Some (File x) \<Rightarrow> Inr (Dir (AList.update n (File b) es))
      | Some (Dir ds) \<Rightarrow> Inl IsADirectoryError)"
| "extract_member (Dir es) (n # m # p) b =
     (case map_of es n of
        None \<Rightarrow>
          (case extract_member (Dir []) (m # p) b of
             Inl e \<Rightarrow> Inl e
           | Inr c \<Rightarrow> Inr (Dir (es @ [(n, c)])))
      | Some c \<Rightarrow>
          (case extract_member c (m # p) b of
             Inl e \<Rightarrow> Inl e
           | Inr c' \<Rightarrow> Inr (Dir (AList.update n c' es))))"

fun extract_members :: "node \<Rightarrow> archive \<Rightarrow> oserror + node" where
  "extract_members nd [] = Inr nd"
| "extract_members nd ((p, b) # ms) =
     (case extract_member nd p b of
        Inl e \<Rightarrow> Inl e
      | Inr nd' \<Rightarrow> extract_members nd' ms)"

definition extractall :: "archive \<Rightarrow> oserror + node" where
  "extractall ar = extract_members (Dir []) ar"

definition file_at :: "node \<Rightarrow> path \<Rightarrow> string option" where
  "file_at fs p = (case lookup fs p of Some (File b) \<Rightarrow> Some b | _ \<Rightarrow> None)"

section \<open>The run\<close>

text \<open>
  Lines 57 to 156 after the extraction: the base path, the two passes and the archive of
  the result. \<open>Inl\<close> is a run that an exception ended.
\<close>

definition pipeline :: "(path \<Rightarrow> bool) \<Rightarrow> node \<Rightarrow> oserror + node \<times> archive" where
  "pipeline fails fs =
     (let base_path = detect_base fs in
      case passA fails fs base_path of
        (fs1, sA) \<Rightarrow>
          (case passB fails fs1 sA of
             Inl e \<Rightarrow> Inl e
           | Inr (fs2, sB) \<Rightarrow> Inr (fs2, repackage fs2)))"


section \<open>The specification's words\<close>



section \<open>Facts about names\<close>















lemma of_char_upper_char:
  "(of_char (upper_char c) :: nat) =
     (if 97 \<le> (of_char c :: nat) \<and> (of_char c :: nat) \<le> 122 then of_char c - 32 else of_char c)"
proof -
  have "(of_char c :: nat) - 32 < 256"
    using nat_of_char_less_256[of c] by arith
  then show ?thesis by (simp add: upper_char_def)
qed

lemma char_eq_nat: "c = d \<longleftrightarrow> (of_char c :: nat) = of_char d"
  by simp

lemma upper_char_A: "upper_char a = CHR ''A'' \<longleftrightarrow> a = CHR ''A'' \<or> a = CHR ''a''"
  unfolding char_eq_nat[of _ "CHR ''A''"] char_eq_nat[of _ "CHR ''a''"] of_char_upper_char
  by (simp; arith)

lemma upper_char_C: "upper_char a = CHR ''C'' \<longleftrightarrow> a = CHR ''C'' \<or> a = CHR ''c''"
  unfolding char_eq_nat[of _ "CHR ''C''"] char_eq_nat[of _ "CHR ''c''"] of_char_upper_char
  by (simp; arith)

lemma startswith_AC:
  "startswith (upper s) ''AC'' \<longleftrightarrow>
     (\<exists>a c rest. s = a # c # rest \<and> (a = CHR ''A'' \<or> a = CHR ''a'') \<and> (c = CHR ''C'' \<or> c = CHR ''c''))"
proof (cases s)
  case Nil
  then show ?thesis by (simp add: startswith_def upper_def)
next
  case (Cons a s')
  show ?thesis
  proof (cases s')
    case Nil
    then show ?thesis using Cons by (simp add: startswith_def upper_def)
  next
    case (Cons c rest)
    then show ?thesis using \<open>s = a # s'\<close>
      by (simp add: startswith_def upper_def upper_char_A upper_char_C)
  qed
qed



lemma folder_step_None:
  "folder_new_name d = None \<Longrightarrow>
   folder_step fails root d (es, dirs, s) = (es, dirs, s\<lparr>examined := examined s @ [root @ [d]]\<rparr>)"
  by (auto simp: folder_step_def folder_new_name_def Let_def split: if_splits)

lemma folder_step_Some:
  "folder_new_name d = Some n \<Longrightarrow>
   folder_step fails root d (es, dirs, s) =
     (let s1 = s\<lparr>examined := examined s @ [root @ [d]]\<rparr> in
      if path_exists es n then (es, dirs, s1\<lparr>logA := logA s1 @ [FolderSkippedExists d n]\<rparr>)
      else if fails (root @ [d]) \<or> map_of es d = None
        then (es, dirs, s1\<lparr>logA := logA s1 @ [FolderFailed d]\<rparr>)
      else
        (let s' = s1\<lparr>logA := logA s1 @ [FolderRenamed d n],
                     folders_renamed_count := folders_renamed_count s1 + 1,
                     renamed_folder_map := AList.update (root @ [d]) (root @ [n]) (renamed_folder_map s1)\<rparr>
         in if d \<in> set dirs then (rename_entry es d n, remove1 d dirs, s')
            else (rename_entry es d n, dirs, s'\<lparr>logA := logA s' @ [FolderFailed d]\<rparr>)))"
  by (auto simp: folder_step_def folder_new_name_def shutil_move_def Let_def split: if_splits)









lemma endswith_append: "endswith (xs @ ys) ys"
  by (simp add: endswith_def)

lemma endswith_same_length: "length xs = length ys \<Longrightarrow> endswith xs ys \<longleftrightarrow> xs = ys"
  by (auto simp: endswith_def)









lemma py_str_digits: "py_str n \<noteq> [] \<and> list_all is_digit (py_str n)"
proof (induction n rule: py_str.induct)
  case (1 n)
  have d: "\<And>k. k < 10 \<Longrightarrow> is_digit (char_of (48 + k :: nat))"
    by (simp add: is_digit_def)
  show ?case
  proof (cases "n < 10")
    case True
    then show ?thesis using d[of n] by (subst py_str.simps, subst (2) py_str.simps) simp
  next
    case False
    then show ?thesis using 1 d[of "n mod 10"]
      by (subst py_str.simps, subst (2) py_str.simps) simp
  qed
qed

lemma not_AC_digit_first:
  assumes "m \<noteq> []" "is_digit (hd m)"
  shows "\<not> startswith (upper m) ''AC''"
proof -
  have "hd m \<noteq> CHR ''A''" "hd m \<noteq> CHR ''a''"
    using assms(2) by (auto simp: is_digit_def)
  then show ?thesis using assms(1) by (auto simp: startswith_AC)
qed

lemma folder_new_name_py_str: "folder_new_name (py_str n) = None"
proof -
  have "py_str n \<noteq> []" "is_digit (hd (py_str n))"
    using py_str_digits[of n] by (auto simp: list_all_iff)
  then show ?thesis using not_AC_digit_first by (simp add: folder_new_name_def)
qed

lemma folder_new_name_idem: "folder_new_name d = Some m \<Longrightarrow> folder_new_name m = None"
proof -
  assume "folder_new_name d = Some m"
  then have "m = py_str (py_int (hd (findall_digits d)))"
    by (auto simp: folder_new_name_def Let_def split: if_splits)
  then show ?thesis by (simp add: folder_new_name_py_str)
qed

lemma re_match_pdf_length: "re_match_pdf f = Some (g1, g2, g3) \<Longrightarrow> length g1 = 3"
  by (auto simp: re_match_pdf_def Let_def split: if_splits)

lemma re_match_pdf_new_filename: "length g1 = 3 \<Longrightarrow> re_match_pdf (new_filename (g1, g2, g3)) = None"
proof -
  assume l: "length g1 = 3"
  have "take 1 (drop 3 (new_filename (g1, g2, g3))) = ''_''"
    using l by (simp add: new_filename_def upper_def)
  then have "upper (take 1 (drop 3 (new_filename (g1, g2, g3)))) \<noteq> ''A''"
    by (simp add: upper_def upper_char_def)
  then show ?thesis by (simp add: re_match_pdf_def Let_def)
qed

lemma file_new_name_idem: "file_new_name f = Some g \<Longrightarrow> file_new_name g = None"
proof -
  assume a: "file_new_name f = Some g"
  then obtain g1 g2 g3 where m: "re_match_pdf f = Some (g1, g2, g3)" and g: "g = new_filename (g1, g2, g3)"
    by (auto simp: file_new_name_def split: if_splits)
  show ?thesis unfolding g file_new_name_def
    using re_match_pdf_new_filename[OF re_match_pdf_length[OF m]] by simp
qed

lemma file_step_None:
  "file_new_name f = None \<Longrightarrow> fst (file_step fails folder f (es, s)) = es"
  by (auto simp: file_step_def file_new_name_def split: option.splits if_splits)

lemma file_step_Some:
  "file_new_name f = Some g \<Longrightarrow>
   file_step fails folder f (es, s) =
     (case os_rename fails folder es f g of
        Inr es' \<Rightarrow> (es', s\<lparr>logB := logB s @ [FileRenamed f g],
                         files_renamed_count := files_renamed_count s + 1\<rparr>)
      | Inl e \<Rightarrow> (es, s\<lparr>logB := logB s @ [FileFailed f]\<rparr>))"
  by (auto simp: file_step_def file_new_name_def Let_def split: option.splits if_splits)

section \<open>The name a folder gets\<close>




section \<open>The name a file gets\<close>



section \<open>Facts about the loop of Pass A\<close>

lemma map_of_rename_entry:
  "map_of es m = None \<Longrightarrow>
   map_of (rename_entry es d m) x =
     (if x = m then map_of es d else if x = d then None else map_of es x)"
  by (induction es) (auto simp: rename_entry_def split: if_splits)

lemma names_rename_entry:
  "fst ` set (rename_entry es d m) =
     (if d \<in> fst ` set es then insert m (fst ` set es - {d}) else fst ` set es)"
  by (induction es) (auto simp: rename_entry_def split: if_splits)

lemma rename_entry_absent: "d \<notin> fst ` set es \<Longrightarrow> rename_entry es d m = es"
  by (induction es) (auto simp: rename_entry_def)

lemma map_fst_rename_entry:
  "map fst (rename_entry es d m) = map (\<lambda>x. if x = d then m else x) (map fst es)"
  by (induction es) (auto simp: rename_entry_def)

lemma distinct_rename_entry:
  assumes "distinct (map fst es)" "map_of es m = None"
  shows "distinct (map fst (rename_entry es d m))"
proof -
  have m: "m \<notin> set (map fst es)"
    using assms(2) by (simp add: map_of_eq_None_iff)
  have "inj_on (\<lambda>x. if x = d then m else x) (set (map fst es))"
    using m by (auto simp: inj_on_def)
  then have "distinct (map (\<lambda>x. if x = d then m else x) (map fst es))"
    using assms(1) by (subst distinct_map) simp
  then show ?thesis by (simp only: map_fst_rename_entry)
qed

lemma folder_step_cases:
  assumes "folder_step fails root d (es, dirs, s) = (es', dirs', s')"
  shows "visited s' = visited s \<and> examined s' = examined s @ [root @ [d]]
    \<and> ((es' = es \<and> dirs' = dirs \<and> renamed_folder_map s' = renamed_folder_map s)
       \<or> (\<exists>m. folder_new_name d = Some m \<and> map_of es m = None \<and> map_of es d \<noteq> None
              \<and> \<not> fails (root @ [d])
              \<and> es' = rename_entry es d m \<and> dirs' = remove1 d dirs
              \<and> renamed_folder_map s' =
                   AList.update (root @ [d]) (root @ [m]) (renamed_folder_map s)))"
proof (cases "folder_new_name d")
  case None
  then show ?thesis using assms by (auto simp: folder_step_None)
next
  case (Some m)
  note st = assms[unfolded folder_step_Some[OF Some] Let_def]
  show ?thesis
  proof (cases "path_exists es m \<or> fails (root @ [d]) \<or> map_of es d = None")
    case True
    then show ?thesis using st by (auto split: if_splits)
  next
    case False
    then have f: "map_of es m = None" "map_of es d \<noteq> None" "\<not> fails (root @ [d])"
      by (auto simp: path_exists_def)
    have r: "es' = rename_entry es d m" "dirs' = remove1 d dirs"
      "renamed_folder_map s' = AList.update (root @ [d]) (root @ [m]) (renamed_folder_map s)"
      "visited s' = visited s" "examined s' = examined s @ [root @ [d]]"
      using st False by (auto simp: remove1_idem split: if_splits)
    show ?thesis using Some f r by blast
  qed
qed


text \<open>
  What the inner loop keeps true of the entries \<open>es\<close> of \<open>root\<close>, the list \<open>dirs\<close> and
  the dict, from the entries \<open>es0\<close> and the dict \<open>M0\<close> it started with; \<open>snap\<close> holds the
  names of the copy of \<open>dirs\<close> the loop runs on.
\<close>

definition loop_inv ::
  "(path \<Rightarrow> bool) \<Rightarrow> path \<Rightarrow> entries \<Rightarrow> (path \<times> path) set \<Rightarrow> name set
     \<Rightarrow> entries \<times> name list \<times> stateA \<Rightarrow> bool" where
  "loop_inv fails root es0 M0 snap st = (case st of (es, dirs, s) \<Rightarrow>
     distinct dirs \<and> set dirs \<subseteq> snap \<and> distinct (map fst es)
     \<and> (\<forall>x\<in>snap. map_of es x \<noteq> None \<or> folder_new_name x \<noteq> None)
     \<and> (\<forall>x\<in>set dirs. map_of es x = map_of es0 x)
     \<and> (\<forall>x. folder_new_name x \<noteq> None \<longrightarrow> map_of es x = map_of es0 x \<or> map_of es x = None)
     \<and> (\<forall>x. folder_new_name x = None \<and> map_of es0 x \<noteq> None \<longrightarrow> map_of es x = map_of es0 x)
     \<and> (\<forall>o' n. (o', n) \<in> set (renamed_folder_map s) \<longrightarrow> (o', n) \<in> M0 \<or>
           (\<exists>d m. o' = root @ [d] \<and> n = root @ [m] \<and> folder_new_name d = Some m
              \<and> d \<notin> set dirs \<and> m \<notin> snap \<and> map_of es m = map_of es0 d
              \<and> map_of es0 d \<noteq> None \<and> map_of es d = None \<and> \<not> fails (root @ [d])
              \<and> map_of es0 m = None))
     \<and> (\<forall>x\<in>snap. (x \<in> set dirs \<and> map_of es x = map_of es0 x) \<or>
           (\<exists>m. folder_new_name x = Some m \<and> (root @ [x], root @ [m]) \<in> set (renamed_folder_map s)
              \<and> map_of es0 m = None)))"

lemma set_update_subset: "set (AList.update k v al) \<subseteq> insert (k, v) (set al)"
  by (induction al) auto

lemma set_update_self: "(k, v) \<in> set (AList.update k v al)"
  by (induction al) auto

lemma set_update_other: "(k', v') \<in> set al \<Longrightarrow> k' \<noteq> k \<Longrightarrow> (k', v') \<in> set (AList.update k v al)"
  by (induction al) auto

lemma loop_inv_step:
  assumes inv: "loop_inv fails root es0 M0 snap st"
  shows "loop_inv fails root es0 M0 snap (folder_step fails root d st)"
proof -
  obtain es dirs s where st: "st = (es, dirs, s)" by (cases st) auto
  obtain es' dirs' s' where r: "folder_step fails root d (es, dirs, s) = (es', dirs', s')"
    by (cases "folder_step fails root d (es, dirs, s)") auto
  note c = folder_step_cases[OF r]
  have all: "distinct dirs \<and> set dirs \<subseteq> snap \<and> distinct (map fst es)
     \<and> (\<forall>x\<in>snap. map_of es x \<noteq> None \<or> folder_new_name x \<noteq> None)
     \<and> (\<forall>x\<in>set dirs. map_of es x = map_of es0 x)
     \<and> (\<forall>x. folder_new_name x \<noteq> None \<longrightarrow> map_of es x = map_of es0 x \<or> map_of es x = None)
     \<and> (\<forall>x. folder_new_name x = None \<and> map_of es0 x \<noteq> None \<longrightarrow> map_of es x = map_of es0 x)
     \<and> (\<forall>o' n. (o', n) \<in> set (renamed_folder_map s) \<longrightarrow> (o', n) \<in> M0 \<or>
           (\<exists>d m. o' = root @ [d] \<and> n = root @ [m] \<and> folder_new_name d = Some m
              \<and> d \<notin> set dirs \<and> m \<notin> snap \<and> map_of es m = map_of es0 d
              \<and> map_of es0 d \<noteq> None \<and> map_of es d = None \<and> \<not> fails (root @ [d])
              \<and> map_of es0 m = None))
     \<and> (\<forall>x\<in>snap. (x \<in> set dirs \<and> map_of es x = map_of es0 x) \<or>
           (\<exists>m. folder_new_name x = Some m \<and> (root @ [x], root @ [m]) \<in> set (renamed_folder_map s)
              \<and> map_of es0 m = None))"
    using inv unfolding st loop_inv_def prod.case .
  have i1: "distinct dirs" "set dirs \<subseteq> snap" "distinct (map fst es)"
    using all by - ((elim conjE, assumption)+)
  have i2: "\<forall>x\<in>snap. map_of es x \<noteq> None \<or> folder_new_name x \<noteq> None"
    using all by - (elim conjE, assumption)
  have i3: "\<forall>x\<in>set dirs. map_of es x = map_of es0 x"
    using all by - (elim conjE, assumption)
  have i4: "\<forall>x. folder_new_name x \<noteq> None \<longrightarrow> map_of es x = map_of es0 x \<or> map_of es x = None"
    using all by - (elim conjE, assumption)
  have i5: "\<forall>x. folder_new_name x = None \<and> map_of es0 x \<noteq> None \<longrightarrow> map_of es x = map_of es0 x"
    using all by - (elim conjE, assumption)
  have i6: "\<forall>o' n. (o', n) \<in> set (renamed_folder_map s) \<longrightarrow> (o', n) \<in> M0 \<or>
           (\<exists>d m. o' = root @ [d] \<and> n = root @ [m] \<and> folder_new_name d = Some m
              \<and> d \<notin> set dirs \<and> m \<notin> snap \<and> map_of es m = map_of es0 d
              \<and> map_of es0 d \<noteq> None \<and> map_of es d = None \<and> \<not> fails (root @ [d])
              \<and> map_of es0 m = None)"
    using all by - (elim conjE, assumption)
  have i7: "\<forall>x\<in>snap. (x \<in> set dirs \<and> map_of es x = map_of es0 x) \<or>
           (\<exists>m. folder_new_name x = Some m \<and> (root @ [x], root @ [m]) \<in> set (renamed_folder_map s)
              \<and> map_of es0 m = None)"
    using all by - (elim conjE, assumption)
  show ?thesis
  proof (cases "es' = es \<and> dirs' = dirs \<and> renamed_folder_map s' = renamed_folder_map s")
    case True
    then have e: "es' = es" "dirs' = dirs" "renamed_folder_map s' = renamed_folder_map s"
      by simp_all
    show ?thesis unfolding st r loop_inv_def prod.case e by (rule all)
  next
    case False
    then obtain m where m: "folder_new_name d = Some m" "map_of es m = None" "map_of es d \<noteq> None"
        "\<not> fails (root @ [d])"
        "es' = rename_entry es d m" "dirs' = remove1 d dirs"
        "renamed_folder_map s' = AList.update (root @ [d]) (root @ [m]) (renamed_folder_map s)"
      using c by blast
    have mo: "\<And>x. map_of es' x = (if x = m then map_of es d else if x = d then None else map_of es x)"
      unfolding m(5) by (rule map_of_rename_entry[OF m(2)])
    have nm: "folder_new_name m = None" by (rule folder_new_name_idem[OF m(1)])
    have dm: "d \<noteq> m" using m(2,3) by auto
    have msnap: "m \<notin> snap" using i2 m(2) nm by auto
    have m0: "map_of es0 m = None"
    proof (rule ccontr)
      assume "map_of es0 m \<noteq> None"
      then have "map_of es m = map_of es0 m" using i5 nm by blast
      then show False using m(2) \<open>map_of es0 m \<noteq> None\<close> by simp
    qed
    have j1: "distinct dirs'" "set dirs' \<subseteq> snap" "distinct (map fst es')"
      using i1 m(2) unfolding m(5,6) by (auto simp: distinct_rename_entry dest: notin_set_remove1)
    have j2: "\<forall>x\<in>snap. map_of es' x \<noteq> None \<or> folder_new_name x \<noteq> None"
      using i2 m(1,3) by (auto simp: mo)
    have j3: "\<forall>x\<in>set dirs'. map_of es' x = map_of es0 x"
    proof
      fix x assume x: "x \<in> set dirs'"
      then have xd: "x \<in> set dirs" "x \<noteq> d" using i1(1) unfolding m(6) by auto
      then have "x \<noteq> m" using msnap i1(2) by auto
      then show "map_of es' x = map_of es0 x" using xd i3 by (simp add: mo)
    qed
    have j4: "\<forall>x. folder_new_name x \<noteq> None \<longrightarrow> map_of es' x = map_of es0 x \<or> map_of es' x = None"
      using i4 nm by (auto simp: mo)
    have j5: "\<forall>x. folder_new_name x = None \<and> map_of es0 x \<noteq> None \<longrightarrow> map_of es' x = map_of es0 x"
    proof (intro allI impI)
      fix x assume x: "folder_new_name x = None \<and> map_of es0 x \<noteq> None"
      then have e: "map_of es x = map_of es0 x" using i5 by blast
      have "x \<noteq> d" using x m(1) by auto
      moreover have "x \<noteq> m" using e x m(2) by auto
      ultimately show "map_of es' x = map_of es0 x" using e by (simp add: mo)
    qed
    have d0: "map_of es d = map_of es0 d" using i4 m(1,3) by auto
    have j6: "\<forall>o' n. (o', n) \<in> set (renamed_folder_map s') \<longrightarrow> (o', n) \<in> M0 \<or>
           (\<exists>d m. o' = root @ [d] \<and> n = root @ [m] \<and> folder_new_name d = Some m
              \<and> d \<notin> set dirs' \<and> m \<notin> snap \<and> map_of es' m = map_of es0 d
              \<and> map_of es0 d \<noteq> None \<and> map_of es' d = None \<and> \<not> fails (root @ [d])
              \<and> map_of es0 m = None)"
    proof (intro allI impI)
      fix o' n assume a1: "(o', n) \<in> set (renamed_folder_map s')"
      show "(o', n) \<in> M0 \<or> (\<exists>d m. o' = root @ [d] \<and> n = root @ [m] \<and> folder_new_name d = Some m
              \<and> d \<notin> set dirs' \<and> m \<notin> snap \<and> map_of es' m = map_of es0 d
              \<and> map_of es0 d \<noteq> None \<and> map_of es' d = None \<and> \<not> fails (root @ [d])
              \<and> map_of es0 m = None)"
      proof (cases "(o', n) \<in> M0")
        case True
        then show ?thesis by (rule disjI1)
      next
        case False
        note a = a1 False
        have "(o', n) = (root @ [d], root @ [m]) \<or> (o', n) \<in> set (renamed_folder_map s)"
          using a1 set_update_subset[of "root @ [d]" "root @ [m]" "renamed_folder_map s"]
          unfolding m(7) by auto
        then have "\<exists>d m. o' = root @ [d] \<and> n = root @ [m] \<and> folder_new_name d = Some m
              \<and> d \<notin> set dirs' \<and> m \<notin> snap \<and> map_of es' m = map_of es0 d
              \<and> map_of es0 d \<noteq> None \<and> map_of es' d = None \<and> \<not> fails (root @ [d])
              \<and> map_of es0 m = None"
        proof
          assume "(o', n) = (root @ [d], root @ [m])"
          moreover have "d \<notin> set dirs'" using i1(1) unfolding m(6) by simp
          moreover have "map_of es' m = map_of es0 d" using d0 by (simp add: mo)
          moreover have "map_of es' d = None" using dm by (simp add: mo)
          ultimately show ?thesis using m(1,3,4) msnap d0 m0 by auto
        next
          assume "(o', n) \<in> set (renamed_folder_map s)"
          then obtain d1 m1 where e: "o' = root @ [d1]" "n = root @ [m1]" "folder_new_name d1 = Some m1"
              "d1 \<notin> set dirs" "m1 \<notin> snap" "map_of es m1 = map_of es0 d1"
              "map_of es0 d1 \<noteq> None" "map_of es d1 = None" "\<not> fails (root @ [d1])"
              "map_of es0 m1 = None"
            using i6[rule_format, of o' n] a(2) by blast
          have nm1: "folder_new_name m1 = None" by (rule folder_new_name_idem[OF e(3)])
          have "m1 \<noteq> d" using nm1 m(1) by auto
          moreover have "m1 \<noteq> m" using e(6,7) m(2) by auto
          ultimately have k1: "map_of es' m1 = map_of es0 d1" using e(6) by (simp add: mo)
          have "d1 \<noteq> m" using e(3) nm by auto
          then have k2: "map_of es' d1 = None" using e(8) by (simp add: mo)
          have "d1 \<notin> set dirs'" using e(4) unfolding m(6) by (auto dest: notin_set_remove1)
          then show ?thesis using e k1 k2 by blast
        qed
        then show ?thesis by (rule disjI2)
      qed
    qed
    have j7: "\<forall>x\<in>snap. (x \<in> set dirs' \<and> map_of es' x = map_of es0 x) \<or>
           (\<exists>m. folder_new_name x = Some m \<and> (root @ [x], root @ [m]) \<in> set (renamed_folder_map s')
              \<and> map_of es0 m = None)"
    proof
      fix x assume xs: "x \<in> snap"
      have keep: "\<And>mx. (root @ [x], root @ [mx]) \<in> set (renamed_folder_map s) \<Longrightarrow>
          folder_new_name x = Some mx \<Longrightarrow> (root @ [x], root @ [mx]) \<in> set (renamed_folder_map s')"
      proof -
        fix mx assume k: "(root @ [x], root @ [mx]) \<in> set (renamed_folder_map s)"
          "folder_new_name x = Some mx"
        show "(root @ [x], root @ [mx]) \<in> set (renamed_folder_map s')"
        proof (cases "x = d")
          case True
          then have "mx = m" using k(2) m(1) by simp
          then show ?thesis unfolding m(7) True by (simp add: set_update_self)
        next
          case False
          then have "root @ [x] \<noteq> root @ [d]" by simp
          then show ?thesis unfolding m(7) using k(1) by (rule set_update_other[rotated])
        qed
      qed
      from i7 xs consider "x \<in> set dirs" "map_of es x = map_of es0 x"
        | mx where "folder_new_name x = Some mx"
            "(root @ [x], root @ [mx]) \<in> set (renamed_folder_map s)" "map_of es0 mx = None"
        by blast
      then show "(x \<in> set dirs' \<and> map_of es' x = map_of es0 x) \<or>
           (\<exists>m. folder_new_name x = Some m \<and> (root @ [x], root @ [m]) \<in> set (renamed_folder_map s')
              \<and> map_of es0 m = None)"
      proof cases
        case 1
        show ?thesis
        proof (cases "x = d")
          case True
          have "(root @ [x], root @ [m]) \<in> set (renamed_folder_map s')"
            unfolding m(7) True by (simp add: set_update_self)
          then show ?thesis using m(1) m0 True by blast
        next
          case False
          then have "x \<in> set dirs'" using 1(1) unfolding m(6) by simp
          then show ?thesis using j3 by blast
        qed
      next
        case 2
        show ?thesis using keep[OF 2(2) 2(1)] 2(1,3) by blast
      qed
    qed
    show ?thesis unfolding st r loop_inv_def prod.case
      by (intro conjI j1 j2 j3 j4 j5 j6 j7)
  qed
qed

lemma loop_inv_fold:
  "loop_inv fails root es0 M0 snap st \<Longrightarrow>
   loop_inv fails root es0 M0 snap (fold (folder_step fails root) ds st)"
  by (induction ds arbitrary: st) (simp_all add: loop_inv_step)

section \<open>Facts about the walk of Pass A\<close>

text \<open>
  \<open>frame R s s'\<close>: from \<open>s\<close> to \<open>s'\<close> the walk visited directories at or below the paths
  of \<open>R\<close> only, examined names strictly below them only, and added to the dict only pairs
  of paths strictly below them.
\<close>

definition frame :: "path set \<Rightarrow> stateA \<Rightarrow> stateA \<Rightarrow> bool" where
  "frame R s s' =
     ((\<exists>vs. visited s' = visited s @ vs \<and> (\<forall>v\<in>set vs. \<exists>r\<in>R. prefix r v))
      \<and> (\<exists>xs. examined s' = examined s @ xs \<and> (\<forall>e\<in>set xs. \<exists>r\<in>R. strict_prefix r e))
      \<and> (\<forall>o' n. (o', n) \<in> set (renamed_folder_map s') \<longrightarrow>
            (o', n) \<in> set (renamed_folder_map s)
            \<or> (\<exists>r\<in>R. strict_prefix r o' \<and> strict_prefix r n)))"

lemma frame_refl: "frame R s s"
  by (simp add: frame_def)

lemma frame_trans:
  assumes "frame R s s1" "frame R s1 s2"
  shows "frame R s s2"
proof -
  obtain vs1 xs1 where a: "visited s1 = visited s @ vs1" "\<forall>v\<in>set vs1. \<exists>r\<in>R. prefix r v"
      "examined s1 = examined s @ xs1" "\<forall>e\<in>set xs1. \<exists>r\<in>R. strict_prefix r e"
    using assms(1) unfolding frame_def by blast
  obtain vs2 xs2 where b: "visited s2 = visited s1 @ vs2" "\<forall>v\<in>set vs2. \<exists>r\<in>R. prefix r v"
      "examined s2 = examined s1 @ xs2" "\<forall>e\<in>set xs2. \<exists>r\<in>R. strict_prefix r e"
    using assms(2) unfolding frame_def by blast
  have m1: "\<forall>o' n. (o', n) \<in> set (renamed_folder_map s1) \<longrightarrow>
            (o', n) \<in> set (renamed_folder_map s)
            \<or> (\<exists>r\<in>R. strict_prefix r o' \<and> strict_prefix r n)"
    using assms(1) unfolding frame_def by blast
  have m2: "\<forall>o' n. (o', n) \<in> set (renamed_folder_map s2) \<longrightarrow>
            (o', n) \<in> set (renamed_folder_map s1)
            \<or> (\<exists>r\<in>R. strict_prefix r o' \<and> strict_prefix r n)"
    using assms(2) unfolding frame_def by blast
  have v: "visited s2 = visited s @ (vs1 @ vs2) \<and> (\<forall>v\<in>set (vs1 @ vs2). \<exists>r\<in>R. prefix r v)"
    using a b by auto
  have x: "examined s2 = examined s @ (xs1 @ xs2) \<and> (\<forall>e\<in>set (xs1 @ xs2). \<exists>r\<in>R. strict_prefix r e)"
    using a b by auto
  have m: "\<forall>o' n. (o', n) \<in> set (renamed_folder_map s2) \<longrightarrow>
            (o', n) \<in> set (renamed_folder_map s)
            \<or> (\<exists>r\<in>R. strict_prefix r o' \<and> strict_prefix r n)"
    using m1 m2 by blast
  show ?thesis unfolding frame_def using v x m by blast
qed

lemma frame_mono:
  assumes "frame R' s s'" "\<forall>r'\<in>R'. \<exists>r\<in>R. prefix r r'"
  shows "frame R s s'"
proof -
  have p: "\<And>v r'. r' \<in> R' \<Longrightarrow> prefix r' v \<Longrightarrow> \<exists>r\<in>R. prefix r v"
    using assms(2) by (meson prefix_order.trans)
  have q: "\<And>v r'. r' \<in> R' \<Longrightarrow> strict_prefix r' v \<Longrightarrow> \<exists>r\<in>R. strict_prefix r v"
    using assms(2) by (meson prefix_order.le_less_trans)
  obtain vs xs where a: "visited s' = visited s @ vs" "\<forall>v\<in>set vs. \<exists>r\<in>R'. prefix r v"
      "examined s' = examined s @ xs" "\<forall>e\<in>set xs. \<exists>r\<in>R'. strict_prefix r e"
    using assms(1) unfolding frame_def by blast
  have m1: "\<forall>o' n. (o', n) \<in> set (renamed_folder_map s') \<longrightarrow>
            (o', n) \<in> set (renamed_folder_map s)
            \<or> (\<exists>r\<in>R'. strict_prefix r o' \<and> strict_prefix r n)"
    using assms(1) unfolding frame_def by blast
  have v: "\<forall>v\<in>set vs. \<exists>r\<in>R. prefix r v" using a(2) p by blast
  have x: "\<forall>e\<in>set xs. \<exists>r\<in>R. strict_prefix r e" using a(4) q by blast
  have m: "\<forall>o' n. (o', n) \<in> set (renamed_folder_map s') \<longrightarrow>
            (o', n) \<in> set (renamed_folder_map s)
            \<or> (\<exists>r\<in>R. strict_prefix r o' \<and> strict_prefix r n)"
  proof (intro allI impI)
    fix o' n assume "(o', n) \<in> set (renamed_folder_map s')"
    then consider "(o', n) \<in> set (renamed_folder_map s)"
      | r' where "r' \<in> R'" "strict_prefix r' o'" "strict_prefix r' n"
      using m1 by blast
    then show "(o', n) \<in> set (renamed_folder_map s)
            \<or> (\<exists>r\<in>R. strict_prefix r o' \<and> strict_prefix r n)"
    proof cases
      case 1 then show ?thesis by (rule disjI1)
    next
      case 2
      obtain r where r: "r \<in> R" "prefix r r'" using assms(2) 2(1) by blast
      have "strict_prefix r o'" "strict_prefix r n"
        using r(2) 2(2,3) by (meson prefix_order.le_less_trans)+
      then show ?thesis using r(1) by blast
    qed
  qed
  show ?thesis unfolding frame_def using a(1,3) v x m by blast
qed

lemma strict_prefix_snoc: "strict_prefix r (r @ [d])"
  by (simp add: strict_prefix_def)

lemma frame_step:
  assumes "folder_step fails root d (es, dirs, s) = (es', dirs', s')"
  shows "frame {root} s s'"
proof -
  note c = folder_step_cases[OF assms]
  have v: "visited s' = visited s @ []" using c by simp
  have x: "examined s' = examined s @ [root @ [d]]" using c by simp
  have m: "\<forall>o' n. (o', n) \<in> set (renamed_folder_map s') \<longrightarrow>
            (o', n) \<in> set (renamed_folder_map s)
            \<or> (\<exists>r\<in>{root}. strict_prefix r o' \<and> strict_prefix r n)"
  proof (intro allI impI)
    fix o' n assume a: "(o', n) \<in> set (renamed_folder_map s')"
    show "(o', n) \<in> set (renamed_folder_map s)
            \<or> (\<exists>r\<in>{root}. strict_prefix r o' \<and> strict_prefix r n)"
    proof (cases "renamed_folder_map s' = renamed_folder_map s")
      case True
      then show ?thesis using a by simp
    next
      case False
      then obtain m where "renamed_folder_map s' =
          AList.update (root @ [d]) (root @ [m]) (renamed_folder_map s)"
        using c by blast
      then have "(o', n) = (root @ [d], root @ [m]) \<or> (o', n) \<in> set (renamed_folder_map s)"
        using a set_update_subset[of "root @ [d]" "root @ [m]" "renamed_folder_map s"] by auto
      then show ?thesis by (auto simp: strict_prefix_snoc)
    qed
  qed
  have x2: "\<forall>e\<in>set [root @ [d]]. \<exists>r\<in>{root}. strict_prefix r e"
    by (simp add: strict_prefix_snoc)
  show ?thesis unfolding frame_def using v x x2 m by (metis empty_iff list.set(1))
qed

lemma frame_fold:
  "fold (folder_step fails root) ds (es, dirs, s) = (es', dirs', s') \<Longrightarrow> frame {root} s s'"
proof (induction ds arbitrary: es dirs s)
  case Nil
  then show ?case by (simp add: frame_refl)
next
  case (Cons d ds)
  obtain es1 dirs1 s1 where r: "folder_step fails root d (es, dirs, s) = (es1, dirs1, s1)"
    by (cases "folder_step fails root d (es, dirs, s)") auto
  have "frame {root} s s1" by (rule frame_step[OF r])
  moreover have "frame {root} s1 s'" using Cons.prems r by (auto intro: Cons.IH)
  ultimately show ?case by (rule frame_trans)
qed

lemma frame_visit: "frame {root} s (s\<lparr>visited := visited s @ [root]\<rparr>)"
  by (simp add: frame_def)

lemma frame_walk:
  "walkA fails root nd s = (nd', s') \<Longrightarrow> frame {root} s s'"
  "descendA fails root es1 ds acc s = (acc', s') \<Longrightarrow> frame ((\<lambda>d. root @ [d]) ` set ds) s s'"
proof (induction fails root nd s and fails root es1 ds acc s
    arbitrary: nd' s' and acc' s' rule: walkA_descendA.induct)
  case (1 fails root b s)
  then show ?case by (simp add: frame_refl)
next
  case (2 fails root es s)
  obtain es1 dirs1 s1 where l: "folder_loop fails root es (s\<lparr>visited := visited s @ [root]\<rparr>) = (es1, dirs1, s1)"
    by (cases "folder_loop fails root es (s\<lparr>visited := visited s @ [root]\<rparr>)") auto
  obtain es2 s2 where d: "descendA fails root es1 dirs1 es1 s1 = (es2, s2)"
    by (cases "descendA fails root es1 dirs1 es1 s1") auto
  have s': "s' = s2" using 2(2) l d by simp
  have f1: "frame {root} s (s\<lparr>visited := visited s @ [root]\<rparr>)" by (rule frame_visit)
  have f2: "frame {root} (s\<lparr>visited := visited s @ [root]\<rparr>) s1"
    using l unfolding folder_loop_def Let_def by (rule frame_fold)
  have "frame ((\<lambda>d. root @ [d]) ` set dirs1) s1 s2"
    using 2(1)[OF l[symmetric] refl d] .
  then have f3: "frame {root} s1 s2"
    by (rule frame_mono) auto
  show ?case unfolding s' using f1 f2 f3 by (blast intro: frame_trans)
next
  case (3 fails root es1 acc s)
  then show ?case by (simp add: frame_refl)
next
  case (4 fails root es1 d ds acc s)
  show ?case
  proof (cases "map_of es1 d")
    case None
    then have "descendA fails root es1 ds acc s = (acc', s')" using 4(4) by simp
    then have "frame ((\<lambda>d. root @ [d]) ` set ds) s s'" using 4(1)[OF None] by simp
    then show ?thesis by (rule frame_mono) auto
  next
    case (Some c)
    obtain c' s1 where w: "walkA fails (root @ [d]) c s = (c', s1)"
      by (cases "walkA fails (root @ [d]) c s") auto
    have r: "descendA fails root es1 ds (AList.update d c' acc) s1 = (acc', s')"
      using 4(4) Some w by simp
    have "frame {root @ [d]} s s1" using 4(2)[OF Some w] .
    then have f1: "frame ((\<lambda>d. root @ [d]) ` set (d # ds)) s s1"
      by (rule frame_mono) auto
    have "frame ((\<lambda>d. root @ [d]) ` set ds) s1 s'"
      using 4(3)[OF Some w[symmetric] r] .
    then have f2: "frame ((\<lambda>d. root @ [d]) ` set (d # ds)) s1 s'"
      by (rule frame_mono) auto
    show ?thesis using f1 f2 by (rule frame_trans)
  qed
qed

lemma fold_examined:
  "fold (folder_step fails root) ds (es, dirs, s) = (es', dirs', s') \<Longrightarrow>
   visited s' = visited s \<and> examined s' = examined s @ map (\<lambda>d. root @ [d]) ds"
proof (induction ds arbitrary: es dirs s)
  case Nil
  then show ?case by simp
next
  case (Cons d ds)
  obtain es1 dirs1 s1 where r: "folder_step fails root d (es, dirs, s) = (es1, dirs1, s1)"
    by (cases "folder_step fails root d (es, dirs, s)") auto
  have a: "visited s1 = visited s" "examined s1 = examined s @ [root @ [d]]"
    using folder_step_cases[OF r] by simp_all
  have "fold (folder_step fails root) ds (es1, dirs1, s1) = (es', dirs', s')"
    using Cons.prems r by simp
  from Cons.IH[OF this] show ?case using a by simp
qed

lemma fold_keys:
  "fold (folder_step fails root) ds (es, dirs, s) = (es', dirs', s') \<Longrightarrow>
   (o', n) \<in> set (renamed_folder_map s') \<Longrightarrow>
   (o', n) \<in> set (renamed_folder_map s) \<or> (\<exists>d\<in>set ds. o' = root @ [d])"
proof (induction ds arbitrary: es dirs s)
  case Nil
  then show ?case by simp
next
  case (Cons d ds)
  obtain es1 dirs1 s1 where r: "folder_step fails root d (es, dirs, s) = (es1, dirs1, s1)"
    by (cases "folder_step fails root d (es, dirs, s)") auto
  have f: "fold (folder_step fails root) ds (es1, dirs1, s1) = (es', dirs', s')"
    using Cons.prems(1) r by simp
  from Cons.IH[OF f Cons.prems(2)]
  consider "(o', n) \<in> set (renamed_folder_map s1)" | "\<exists>d\<in>set ds. o' = root @ [d]" by blast
  then show ?case
  proof cases
    case 1
    have "renamed_folder_map s1 = renamed_folder_map s
      \<or> (\<exists>m. renamed_folder_map s1 = AList.update (root @ [d]) (root @ [m]) (renamed_folder_map s))"
      using folder_step_cases[OF r] by blast
    then show ?thesis
    proof
      assume "renamed_folder_map s1 = renamed_folder_map s"
      then show ?thesis using 1 by simp
    next
      assume "\<exists>m. renamed_folder_map s1 = AList.update (root @ [d]) (root @ [m]) (renamed_folder_map s)"
      then obtain m where "renamed_folder_map s1 = AList.update (root @ [d]) (root @ [m]) (renamed_folder_map s)"
        by blast
      then have "(o', n) = (root @ [d], root @ [m]) \<or> (o', n) \<in> set (renamed_folder_map s)"
        using 1 set_update_subset[of "root @ [d]" "root @ [m]" "renamed_folder_map s"] by auto
      then show ?thesis by auto
    qed
  next
    case 2
    then show ?thesis by auto
  qed
qed

lemma distinct_dir_names: "distinct (map fst es) \<Longrightarrow> distinct (dir_names es)"
  unfolding dir_names_def by (rule distinct_map_filter)

lemma dir_names_map_of:
  "distinct (map fst es) \<Longrightarrow> d \<in> set (dir_names es) \<Longrightarrow> \<exists>c. map_of es d = Some (Dir c)"
proof -
  assume a: "distinct (map fst es)" "d \<in> set (dir_names es)"
  then obtain nd where "(d, nd) \<in> set es" "is_dir nd"
    unfolding dir_names_def by auto
  then have "map_of es d = Some nd" "is_dir nd" using a(1) by simp_all
  then show ?thesis by (cases nd) auto
qed

lemma loop_inv_init:
  assumes "distinct (map fst es)"
  shows "loop_inv fails root es (set (renamed_folder_map s)) (set (dir_names es))
           (es, dir_names es, s)"
proof -
  have a: "\<forall>x\<in>set (dir_names es). map_of es x \<noteq> None \<or> folder_new_name x \<noteq> None"
    using dir_names_map_of[OF assms] by fastforce
  show ?thesis unfolding loop_inv_def prod.case
    using assms distinct_dir_names[OF assms] a by blast
qed

lemma folder_loop_inv:
  assumes "distinct (map fst es)"
  shows "loop_inv fails root es (set (renamed_folder_map s)) (set (dir_names es))
           (folder_loop fails root es s)"
  unfolding folder_loop_def Let_def by (rule loop_inv_fold[OF loop_inv_init[OF assms]])

lemma folder_loop_facts:
  assumes wf: "distinct (map fst es)" and l: "folder_loop fails root es s = (es1, dirs1, s1)"
  shows "distinct dirs1" "set dirs1 \<subseteq> set (dir_names es)" "distinct (map fst es1)"
    "map snd es1 = map snd es"
    "\<forall>x\<in>set dirs1. map_of es1 x = map_of es x"
    "visited s1 = visited s" "examined s1 = examined s @ map (\<lambda>d. root @ [d]) (dir_names es)"
    "\<forall>o' n. (o', n) \<in> set (renamed_folder_map s1) \<longrightarrow> (o', n) \<in> set (renamed_folder_map s) \<or>
           (\<exists>d m. o' = root @ [d] \<and> n = root @ [m] \<and> folder_new_name d = Some m
              \<and> d \<in> set (dir_names es) \<and> d \<notin> set dirs1 \<and> m \<notin> set (dir_names es)
              \<and> map_of es1 m = map_of es d \<and> map_of es1 d = None \<and> \<not> fails (root @ [d])
              \<and> map_of es m = None)"
    "\<forall>x. folder_new_name x = None \<and> map_of es x \<noteq> None \<longrightarrow> map_of es1 x = map_of es x"
    "\<forall>x\<in>set (dir_names es). (x \<in> set dirs1 \<and> map_of es1 x = map_of es x) \<or>
           (\<exists>m. folder_new_name x = Some m
              \<and> (root @ [x], root @ [m]) \<in> set (renamed_folder_map s1) \<and> map_of es m = None)"
proof -
  have "loop_inv fails root es (set (renamed_folder_map s)) (set (dir_names es)) (es1, dirs1, s1)"
    using folder_loop_inv[OF wf, of fails root s] l by simp
  then have all: "distinct dirs1 \<and> set dirs1 \<subseteq> set (dir_names es) \<and> distinct (map fst es1)
     \<and> (\<forall>x\<in>set (dir_names es). map_of es1 x \<noteq> None \<or> folder_new_name x \<noteq> None)
     \<and> (\<forall>x\<in>set dirs1. map_of es1 x = map_of es x)
     \<and> (\<forall>x. folder_new_name x \<noteq> None \<longrightarrow> map_of es1 x = map_of es x \<or> map_of es1 x = None)
     \<and> (\<forall>x. folder_new_name x = None \<and> map_of es x \<noteq> None \<longrightarrow> map_of es1 x = map_of es x)
     \<and> (\<forall>o' n. (o', n) \<in> set (renamed_folder_map s1) \<longrightarrow> (o', n) \<in> set (renamed_folder_map s) \<or>
           (\<exists>d m. o' = root @ [d] \<and> n = root @ [m] \<and> folder_new_name d = Some m
              \<and> d \<notin> set dirs1 \<and> m \<notin> set (dir_names es) \<and> map_of es1 m = map_of es d
              \<and> map_of es d \<noteq> None \<and> map_of es1 d = None \<and> \<not> fails (root @ [d])
              \<and> map_of es m = None))
     \<and> (\<forall>x\<in>set (dir_names es). (x \<in> set dirs1 \<and> map_of es1 x = map_of es x) \<or>
           (\<exists>m. folder_new_name x = Some m
              \<and> (root @ [x], root @ [m]) \<in> set (renamed_folder_map s1) \<and> map_of es m = None))"
    unfolding loop_inv_def prod.case .
  show "\<forall>x\<in>set (dir_names es). (x \<in> set dirs1 \<and> map_of es1 x = map_of es x) \<or>
           (\<exists>m. folder_new_name x = Some m
              \<and> (root @ [x], root @ [m]) \<in> set (renamed_folder_map s1) \<and> map_of es m = None)"
    using all by - (elim conjE, assumption)
  show "distinct dirs1" using all by - (elim conjE, assumption)
  show "set dirs1 \<subseteq> set (dir_names es)" using all by - (elim conjE, assumption)
  show "distinct (map fst es1)" using all by - (elim conjE, assumption)
  show "\<forall>x\<in>set dirs1. map_of es1 x = map_of es x" using all by - (elim conjE, assumption)
  show "\<forall>x. folder_new_name x = None \<and> map_of es x \<noteq> None \<longrightarrow> map_of es1 x = map_of es x"
    using all by - (elim conjE, assumption)
  show "map snd es1 = map snd es" using map_snd_folder_loop[of fails root es s] l by simp
  have f: "fold (folder_step fails root) (dir_names es) (es, dir_names es, s) = (es1, dirs1, s1)"
    using l unfolding folder_loop_def Let_def .
  show "visited s1 = visited s" using fold_examined[OF f] by simp
  show "examined s1 = examined s @ map (\<lambda>d. root @ [d]) (dir_names es)"
    using fold_examined[OF f] by simp
  have i6: "\<forall>o' n. (o', n) \<in> set (renamed_folder_map s1) \<longrightarrow> (o', n) \<in> set (renamed_folder_map s) \<or>
           (\<exists>d m. o' = root @ [d] \<and> n = root @ [m] \<and> folder_new_name d = Some m
              \<and> d \<notin> set dirs1 \<and> m \<notin> set (dir_names es) \<and> map_of es1 m = map_of es d
              \<and> map_of es d \<noteq> None \<and> map_of es1 d = None \<and> \<not> fails (root @ [d])
              \<and> map_of es m = None)"
    using all by - (elim conjE, assumption)
  show "\<forall>o' n. (o', n) \<in> set (renamed_folder_map s1) \<longrightarrow> (o', n) \<in> set (renamed_folder_map s) \<or>
           (\<exists>d m. o' = root @ [d] \<and> n = root @ [m] \<and> folder_new_name d = Some m
              \<and> d \<in> set (dir_names es) \<and> d \<notin> set dirs1 \<and> m \<notin> set (dir_names es)
              \<and> map_of es1 m = map_of es d \<and> map_of es1 d = None \<and> \<not> fails (root @ [d])
              \<and> map_of es m = None)"
  proof (intro allI impI)
    fix o' n assume a: "(o', n) \<in> set (renamed_folder_map s1)"
    show "(o', n) \<in> set (renamed_folder_map s) \<or>
           (\<exists>d m. o' = root @ [d] \<and> n = root @ [m] \<and> folder_new_name d = Some m
              \<and> d \<in> set (dir_names es) \<and> d \<notin> set dirs1 \<and> m \<notin> set (dir_names es)
              \<and> map_of es1 m = map_of es d \<and> map_of es1 d = None \<and> \<not> fails (root @ [d])
              \<and> map_of es m = None)"
    proof (cases "(o', n) \<in> set (renamed_folder_map s)")
      case True
      then show ?thesis by (rule disjI1)
    next
      case False
      then obtain d m where e: "o' = root @ [d]" "n = root @ [m]" "folder_new_name d = Some m"
          "d \<notin> set dirs1" "m \<notin> set (dir_names es)" "map_of es1 m = map_of es d"
          "map_of es1 d = None" "\<not> fails (root @ [d])" "map_of es m = None"
        using i6[rule_format, OF a] by blast
      have "d \<in> set (dir_names es)" using fold_keys[OF f a] False e(1) by auto
      then show ?thesis using e by blast
    qed
  qed
qed

text \<open>
  Two paths are incomparable when neither is a prefix of the other. \<open>good s\<close> is what the
  walk keeps true of its variables: no path of the dict, old or new, is a prefix of a
  visited directory; the new path of a pair is never examined and the old one is; every
  examined path is a child of a visited directory; and no path is examined twice.
  \<open>pre root s\<close> is what holds when the walk reaches \<open>root\<close>.
\<close>

definition incomp :: "path \<Rightarrow> path \<Rightarrow> bool" where
  "incomp p q = (\<not> prefix p q \<and> \<not> prefix q p)"

lemma incomp_sym: "incomp p q \<Longrightarrow> incomp q p"
  by (simp add: incomp_def)

lemma incomp_below: "incomp p r \<Longrightarrow> prefix r r' \<Longrightarrow> incomp p r'"
  unfolding incomp_def by (meson prefix_order.trans prefix_same_cases)

lemma incomp_siblings: "d \<noteq> d' \<Longrightarrow> incomp (r @ [d]) (r @ [d'])"
  by (simp add: incomp_def)

lemma not_prefix_snoc: "\<not> prefix root v \<Longrightarrow> \<not> prefix (root @ [d]) v"
  by (meson prefix_order.trans prefixI)

definition good :: "stateA \<Rightarrow> bool" where
  "good s =
     ((\<forall>o' n. (o', n) \<in> set (renamed_folder_map s) \<longrightarrow>
         (\<forall>v\<in>set (visited s). \<not> prefix o' v \<and> \<not> prefix n v)
         \<and> n \<notin> set (examined s) \<and> o' \<in> set (examined s))
      \<and> (\<forall>e\<in>set (examined s). \<exists>v\<in>set (visited s). \<exists>d. e = v @ [d])
      \<and> distinct (examined s))"

definition pre :: "path \<Rightarrow> stateA \<Rightarrow> bool" where
  "pre root s =
     ((\<forall>o' n. (o', n) \<in> set (renamed_folder_map s) \<longrightarrow> incomp o' root \<and> incomp n root)
      \<and> (\<forall>v\<in>set (visited s). \<not> prefix root v))"

lemma good_init: "good initA"
  by (simp add: good_def initA_def)

lemma pre_init: "pre root initA"
  by (simp add: pre_def initA_def)

lemma pre_after_sibling:
  assumes p: "pre (root @ [d']) s" and f: "frame {root @ [d]} s s1" and ne: "d \<noteq> d'"
  shows "pre (root @ [d']) s1"
proof -
  have ic: "incomp (root @ [d']) (root @ [d])" using ne by (simp add: incomp_siblings)
  obtain vs where v: "visited s1 = visited s @ vs" "\<forall>v\<in>set vs. prefix (root @ [d]) v"
    using f unfolding frame_def by auto
  have m: "\<forall>o' n. (o', n) \<in> set (renamed_folder_map s1) \<longrightarrow>
            (o', n) \<in> set (renamed_folder_map s)
            \<or> (strict_prefix (root @ [d]) o' \<and> strict_prefix (root @ [d]) n)"
    using f unfolding frame_def by auto
  have a: "\<forall>o' n. (o', n) \<in> set (renamed_folder_map s1) \<longrightarrow>
      incomp o' (root @ [d']) \<and> incomp n (root @ [d'])"
  proof (intro allI impI)
    fix o' n assume "(o', n) \<in> set (renamed_folder_map s1)"
    then consider "(o', n) \<in> set (renamed_folder_map s)"
      | "strict_prefix (root @ [d]) o'" "strict_prefix (root @ [d]) n"
      using m by blast
    then show "incomp o' (root @ [d']) \<and> incomp n (root @ [d'])"
    proof cases
      case 1
      then show ?thesis using p unfolding pre_def by blast
    next
      case 2
      then have "prefix (root @ [d]) o'" "prefix (root @ [d]) n"
        by (simp_all add: strict_prefix_def)
      then show ?thesis using incomp_below[OF ic] incomp_sym by blast
    qed
  qed
  have b: "\<forall>v\<in>set (visited s1). \<not> prefix (root @ [d']) v"
  proof
    fix v assume "v \<in> set (visited s1)"
    then consider "v \<in> set (visited s)" | "prefix (root @ [d]) v" using v by auto
    then show "\<not> prefix (root @ [d']) v"
    proof cases
      case 1
      then show ?thesis using p unfolding pre_def by blast
    next
      case 2
      then show ?thesis using incomp_below[OF ic 2] by (simp add: incomp_def)
    qed
  qed
  show ?thesis unfolding pre_def using a b by blast
qed

lemma good_loop:
  assumes wf: "distinct (map fst es)" and g: "good s" and p: "pre root s"
    and l: "folder_loop fails root es (s\<lparr>visited := visited s @ [root]\<rparr>) = (es1, dirs1, s1)"
  shows "good s1" "\<forall>d\<in>set dirs1. pre (root @ [d]) s1"
proof -
  let ?s0 = "s\<lparr>visited := visited s @ [root]\<rparr>"
  let ?snap = "dir_names es"
  note F = folder_loop_facts[OF wf l]
  have vis: "visited s1 = visited s @ [root]" using F(6) by simp
  have exa: "examined s1 = examined s @ map (\<lambda>d. root @ [d]) ?snap" using F(7) by simp
  have ent: "\<forall>o' n. (o', n) \<in> set (renamed_folder_map s1) \<longrightarrow> (o', n) \<in> set (renamed_folder_map s) \<or>
           (\<exists>d m. o' = root @ [d] \<and> n = root @ [m]
              \<and> d \<in> set ?snap \<and> d \<notin> set dirs1 \<and> m \<notin> set ?snap)"
    using F(8) by fastforce
  have gJ: "\<And>o' n v. (o', n) \<in> set (renamed_folder_map s) \<Longrightarrow> v \<in> set (visited s) \<Longrightarrow>
      \<not> prefix o' v \<and> \<not> prefix n v"
    and gN: "\<And>o' n. (o', n) \<in> set (renamed_folder_map s) \<Longrightarrow>
      n \<notin> set (examined s) \<and> o' \<in> set (examined s)"
    and gE: "\<And>e. e \<in> set (examined s) \<Longrightarrow> \<exists>v\<in>set (visited s). \<exists>d. e = v @ [d]"
    and gD: "distinct (examined s)"
    using g unfolding good_def by blast+
  have pI: "\<And>o' n. (o', n) \<in> set (renamed_folder_map s) \<Longrightarrow> incomp o' root \<and> incomp n root"
    and pV: "\<And>v. v \<in> set (visited s) \<Longrightarrow> \<not> prefix root v"
    using p unfolding pre_def by blast+
  have oldex: "\<And>x. root @ [x] \<notin> set (examined s)"
  proof
    fix x assume "root @ [x] \<in> set (examined s)"
    then obtain v d where "v \<in> set (visited s)" "root @ [x] = v @ [d]" using gE by blast
    then have "root \<in> set (visited s)" by simp
    then show False using pV by blast
  qed
  have J: "\<And>o' n v. (o', n) \<in> set (renamed_folder_map s1) \<Longrightarrow> v \<in> set (visited s1) \<Longrightarrow>
      \<not> prefix o' v \<and> \<not> prefix n v"
  proof -
    fix o' n v assume a: "(o', n) \<in> set (renamed_folder_map s1)" "v \<in> set (visited s1)"
    consider "(o', n) \<in> set (renamed_folder_map s)"
      | d m where "o' = root @ [d]" "n = root @ [m]"
      using ent a(1) by blast
    then show "\<not> prefix o' v \<and> \<not> prefix n v"
    proof cases
      case 1
      show ?thesis
      proof (cases "v = root")
        case True
        then show ?thesis using pI[OF 1] by (simp add: incomp_def)
      next
        case False
        then have "v \<in> set (visited s)" using a(2) vis by simp
        then show ?thesis using gJ[OF 1] by blast
      qed
    next
      case 2
      show ?thesis
      proof (cases "v = root")
        case True
        then show ?thesis using 2 by simp
      next
        case False
        then have "v \<in> set (visited s)" using a(2) vis by simp
        then have "\<not> prefix root v" by (rule pV)
        then show ?thesis unfolding 2 by (intro conjI not_prefix_snoc)
      qed
    qed
  qed
  have N: "\<And>o' n. (o', n) \<in> set (renamed_folder_map s1) \<Longrightarrow>
      n \<notin> set (examined s1) \<and> o' \<in> set (examined s1)"
  proof -
    fix o' n assume a: "(o', n) \<in> set (renamed_folder_map s1)"
    consider "(o', n) \<in> set (renamed_folder_map s)"
      | d m where "o' = root @ [d]" "n = root @ [m]" "d \<in> set ?snap" "m \<notin> set ?snap"
      using ent a by blast
    then show "n \<notin> set (examined s1) \<and> o' \<in> set (examined s1)"
    proof cases
      case 1
      have "\<not> prefix root n" using pI[OF 1] by (simp add: incomp_def)
      then have "\<And>x. n \<noteq> root @ [x]" by auto
      then show ?thesis using gN[OF 1] exa by auto
    next
      case 2
      then show ?thesis using exa oldex by auto
    qed
  qed
  have E: "\<And>e. e \<in> set (examined s1) \<Longrightarrow> \<exists>v\<in>set (visited s1). \<exists>d. e = v @ [d]"
  proof -
    fix e assume "e \<in> set (examined s1)"
    then consider "e \<in> set (examined s)" | x where "e = root @ [x]" using exa by auto
    then show "\<exists>v\<in>set (visited s1). \<exists>d. e = v @ [d]"
    proof cases
      case 1
      then show ?thesis using gE[OF 1] vis by auto
    next
      case 2
      then show ?thesis using vis by auto
    qed
  qed
  have "distinct (map (\<lambda>d. root @ [d]) ?snap)"
    using distinct_dir_names[OF wf] by (simp add: distinct_map inj_on_def)
  then have D: "distinct (examined s1)"
    unfolding exa using gD oldex by auto
  show "good s1" unfolding good_def using J N E D by blast
  show "\<forall>d\<in>set dirs1. pre (root @ [d]) s1"
  proof
    fix d assume d: "d \<in> set dirs1"
    have a: "\<forall>o' n. (o', n) \<in> set (renamed_folder_map s1) \<longrightarrow>
        incomp o' (root @ [d]) \<and> incomp n (root @ [d])"
    proof (intro allI impI)
      fix o' n assume "(o', n) \<in> set (renamed_folder_map s1)"
      then consider "(o', n) \<in> set (renamed_folder_map s)"
        | d' m where "o' = root @ [d']" "n = root @ [m]" "d' \<notin> set dirs1" "m \<notin> set ?snap"
        using ent by blast
      then show "incomp o' (root @ [d]) \<and> incomp n (root @ [d])"
      proof cases
        case 1
        then show ?thesis using pI[OF 1] incomp_below[of _ root "root @ [d]"] by simp
      next
        case 2
        have "d' \<noteq> d" using 2(3) d by auto
        moreover have "m \<noteq> d" using 2(4) d F(2) by auto
        ultimately show ?thesis using 2(1,2) by (simp add: incomp_siblings)
      qed
    qed
    have b: "\<forall>v\<in>set (visited s1). \<not> prefix (root @ [d]) v"
    proof
      fix v assume "v \<in> set (visited s1)"
      then consider "v \<in> set (visited s)" | "v = root" using vis by auto
      then show "\<not> prefix (root @ [d]) v"
      proof cases
        case 1
        show ?thesis by (rule not_prefix_snoc[OF pV[OF 1]])
      next
        case 2
        then show ?thesis by simp
      qed
    qed
    show "pre (root @ [d]) s1" unfolding pre_def using a b by blast
  qed
qed

lemma wf_children:
  "wf_node (Dir es) \<Longrightarrow> map snd es1 = map snd es \<Longrightarrow> \<forall>c\<in>snd ` set es1. wf_node c"
proof -
  assume a: "wf_node (Dir es)" "map snd es1 = map snd es"
  have "snd ` set es1 = snd ` set es" using a(2) by (metis set_map)
  then show ?thesis using a(1) by (auto simp: list_all_iff)
qed

lemma good_walk:
  "walkA fails root nd s = (nd', s') \<Longrightarrow> wf_node nd \<Longrightarrow> good s \<Longrightarrow> pre root s \<Longrightarrow> good s'"
  "descendA fails root es1 ds acc s = (acc', s') \<Longrightarrow> \<forall>c\<in>snd ` set es1. wf_node c \<Longrightarrow>
     distinct ds \<Longrightarrow> good s \<Longrightarrow> \<forall>d\<in>set ds. pre (root @ [d]) s \<Longrightarrow> good s'"
proof (induction fails root nd s and fails root es1 ds acc s
    arbitrary: nd' s' and acc' s' rule: walkA_descendA.induct)
  case (1 fails root b s)
  then show ?case by simp
next
  case (2 fails root es s)
  obtain es1 dirs1 s1 where l: "folder_loop fails root es (s\<lparr>visited := visited s @ [root]\<rparr>) = (es1, dirs1, s1)"
    by (cases "folder_loop fails root es (s\<lparr>visited := visited s @ [root]\<rparr>)") auto
  obtain es2 s2 where d: "descendA fails root es1 dirs1 es1 s1 = (es2, s2)"
    by (cases "descendA fails root es1 dirs1 es1 s1") auto
  have s': "s' = s2" using 2(2) l d by simp
  have wf: "distinct (map fst es)" using 2(3) by simp
  note G = good_loop[OF wf 2(4) 2(5) l]
  note F = folder_loop_facts[OF wf l]
  have c: "\<forall>c\<in>snd ` set es1. wf_node c" by (rule wf_children[OF 2(3) F(4)])
  show ?case unfolding s'
    by (rule 2(1)[OF l[symmetric] refl d c F(1) G(1) G(2)])
next
  case (3 fails root es1 acc s)
  then show ?case by simp
next
  case (4 fails root es1 d ds acc s)
  have dd: "distinct ds" "d \<notin> set ds" using 4(6) by simp_all
  show ?case
  proof (cases "map_of es1 d")
    case None
    then have r: "descendA fails root es1 ds acc s = (acc', s')" using 4(4) by simp
    show ?thesis using 4(1)[OF None r 4(5) dd(1) 4(7)] 4(8) by simp
  next
    case (Some c)
    obtain c' s1 where w: "walkA fails (root @ [d]) c s = (c', s1)"
      by (cases "walkA fails (root @ [d]) c s") auto
    have r: "descendA fails root es1 ds (AList.update d c' acc) s1 = (acc', s')"
      using 4(4) Some w by simp
    have wfc: "wf_node c" using 4(5) map_of_SomeD[OF Some] by force
    have pd: "pre (root @ [d]) s" using 4(8) by simp
    have g1: "good s1" by (rule 4(2)[OF Some w wfc 4(7) pd])
    have f: "frame {root @ [d]} s s1" by (rule frame_walk(1)[OF w])
    have p1: "\<forall>d'\<in>set ds. pre (root @ [d']) s1"
    proof
      fix d' assume x: "d' \<in> set ds"
      then have "d \<noteq> d'" using dd(2) by auto
      moreover have "pre (root @ [d']) s" using 4(8) x by simp
      ultimately show "pre (root @ [d']) s1" using f pre_after_sibling[of root d' s d s1] by simp
    qed
    show ?thesis by (rule 4(3)[OF Some w[symmetric] r 4(5) dd(1) g1 p1])
  qed
qed

lemma lookup_single: "lookup (Dir es) [x] = map_of es x"
  by (simp split: option.splits)

lemma lookup_Cons: "map_of es x = Some c \<Longrightarrow> lookup (Dir es) (x # p) = lookup c p"
  by simp

text \<open>
  \<open>moved fails root nd nd' o n\<close>: below \<open>root\<close>, the directory that the node \<open>nd\<close> has at
  the path \<open>o\<close> is, whole and unchanged, what the node \<open>nd'\<close> has at the path \<open>n\<close>; \<open>nd'\<close>
  has nothing at \<open>o\<close> and \<open>nd\<close> had nothing at \<open>n\<close>; the two paths differ in their last name
  only, the second being the new name of the first; and the system did not refuse the move.
\<close>

definition moved ::
  "(path \<Rightarrow> bool) \<Rightarrow> path \<Rightarrow> node \<Rightarrow> node \<Rightarrow> path \<Rightarrow> path \<Rightarrow> bool" where
  "moved fails root nd nd' o' n =
     ((\<exists>po pn k. o' = root @ po \<and> n = root @ pn \<and> lookup nd po = Some (Dir k)
        \<and> lookup nd' pn = Some (Dir k) \<and> lookup nd' po = None \<and> lookup nd pn = None)
      \<and> (\<exists>r d m. o' = r @ [d] \<and> n = r @ [m] \<and> folder_new_name d = Some m)
      \<and> \<not> fails o')"

lemma moved_walk:
  "walkA fails root nd s = (nd', s') \<Longrightarrow> wf_node nd \<Longrightarrow>
     (\<forall>o' n. (o', n) \<in> set (renamed_folder_map s') \<longrightarrow>
        (o', n) \<in> set (renamed_folder_map s) \<or> moved fails root nd nd' o' n)"
  "descendA fails root es1 ds acc s = (acc', s') \<Longrightarrow> \<forall>c\<in>snd ` set es1. wf_node c \<Longrightarrow>
     distinct ds \<Longrightarrow>
     (\<forall>x. x \<notin> set ds \<longrightarrow> map_of acc' x = map_of acc x)
     \<and> (\<forall>o' n. (o', n) \<in> set (renamed_folder_map s') \<longrightarrow>
        (o', n) \<in> set (renamed_folder_map s)
        \<or> (\<exists>d\<in>set ds. \<exists>c c'. map_of es1 d = Some c \<and> map_of acc' d = Some c'
              \<and> moved fails (root @ [d]) c c' o' n))"
proof (induction fails root nd s and fails root es1 ds acc s
    arbitrary: nd' s' and acc' s' rule: walkA_descendA.induct)
  case (1 fails root b s)
  then show ?case by simp
next
  case (2 fails root es s)
  let ?s0 = "s\<lparr>visited := visited s @ [root]\<rparr>"
  obtain es1 dirs1 s1 where l: "folder_loop fails root es ?s0 = (es1, dirs1, s1)"
    by (cases "folder_loop fails root es ?s0") auto
  obtain es2 s2 where d: "descendA fails root es1 dirs1 es1 s1 = (es2, s2)"
    by (cases "descendA fails root es1 dirs1 es1 s1") auto
  have r: "s' = s2" "nd' = Dir es2" using 2(2) l d by simp_all
  have wf: "distinct (map fst es)" using 2(3) by simp
  note F = folder_loop_facts[OF wf l]
  have c: "\<forall>c\<in>snd ` set es1. wf_node c" by (rule wf_children[OF 2(3) F(4)])
  note IH = 2(1)[OF l[symmetric] refl d c F(1)]
  have keep: "\<And>x. x \<notin> set dirs1 \<Longrightarrow> map_of es2 x = map_of es1 x" using IH by blast
  show ?case unfolding r
  proof (intro allI impI)
    fix o' n assume a: "(o', n) \<in> set (renamed_folder_map s2)"
    consider "(o', n) \<in> set (renamed_folder_map s1)"
      | d c c' where "d \<in> set dirs1" "map_of es1 d = Some c" "map_of es2 d = Some c'"
          "moved fails (root @ [d]) c c' o' n"
      using IH a by blast
    then show "(o', n) \<in> set (renamed_folder_map s) \<or> moved fails root (Dir es) (Dir es2) o' n"
    proof cases
      case 1
      then consider "(o', n) \<in> set (renamed_folder_map s)"
        | d m where "o' = root @ [d]" "n = root @ [m]" "d \<in> set (dir_names es)"
            "d \<notin> set dirs1" "m \<notin> set (dir_names es)" "map_of es1 m = map_of es d"
            "map_of es1 d = None" "folder_new_name d = Some m" "\<not> fails (root @ [d])"
            "map_of es m = None"
        using F(8) by fastforce
      then show ?thesis
      proof cases
        case 1
        then show ?thesis by (rule disjI1)
      next
        case 2
        obtain k where k: "map_of es d = Some (Dir k)"
          using dir_names_map_of[OF wf 2(3)] by blast
        have m1: "m \<notin> set dirs1" using 2(5) F(2) by auto
        have "lookup (Dir es) [d] = Some (Dir k)" using k by (simp add: lookup_single)
        moreover have "lookup (Dir es2) [m] = Some (Dir k)"
          using keep[OF m1] 2(6) k by (simp add: lookup_single)
        moreover have "lookup (Dir es2) [d] = None"
          using keep[OF 2(4)] 2(7) by (simp add: lookup_single)
        moreover have "lookup (Dir es) [m] = None" using 2(10) by (simp add: lookup_single)
        ultimately have "\<exists>po pn k. root @ [d] = root @ po \<and> root @ [m] = root @ pn
            \<and> lookup (Dir es) po = Some (Dir k) \<and> lookup (Dir es2) pn = Some (Dir k)
            \<and> lookup (Dir es2) po = None \<and> lookup (Dir es) pn = None"
          by blast
        moreover have "\<exists>r d' m'. root @ [d] = r @ [d'] \<and> root @ [m] = r @ [m']
            \<and> folder_new_name d' = Some m'"
          using 2(8) by blast
        ultimately have "moved fails root (Dir es) (Dir es2) o' n"
          unfolding moved_def 2(1,2) using 2(9) by (intro conjI)
        then show ?thesis by (rule disjI2)
      qed
    next
      case 2
      obtain po pn k where m: "o' = (root @ [d]) @ po" "n = (root @ [d]) @ pn"
          "lookup c po = Some (Dir k)" "lookup c' pn = Some (Dir k)" "lookup c' po = None"
          "lookup c pn = None"
        using 2(4) unfolding moved_def by blast
      have sh: "(\<exists>r d m. o' = r @ [d] \<and> n = r @ [m] \<and> folder_new_name d = Some m)"
        and nf: "\<not> fails o'"
        using 2(4) unfolding moved_def by blast+
      have e: "map_of es d = Some c" using F(5) 2(1,2) by auto
      have "lookup (Dir es) (d # po) = Some (Dir k)" using e m(3) by simp
      moreover have "lookup (Dir es2) (d # pn) = Some (Dir k)" using 2(3) m(4) by simp
      moreover have "lookup (Dir es2) (d # po) = None" using 2(3) m(5) by simp
      moreover have "lookup (Dir es) (d # pn) = None" using e m(6) by simp
      moreover have "o' = root @ (d # po)" "n = root @ (d # pn)" using m(1,2) by simp_all
      ultimately have "\<exists>po pn k. o' = root @ po \<and> n = root @ pn
            \<and> lookup (Dir es) po = Some (Dir k) \<and> lookup (Dir es2) pn = Some (Dir k)
            \<and> lookup (Dir es2) po = None \<and> lookup (Dir es) pn = None"
        by blast
      then have "moved fails root (Dir es) (Dir es2) o' n"
        unfolding moved_def using sh nf by (intro conjI)
      then show ?thesis by (rule disjI2)
    qed
  qed
next
  case (3 fails root es1 acc s)
  then show ?case by simp
next
  case (4 fails root es1 d ds acc s)
  have dd: "distinct ds" "d \<notin> set ds" using 4(6) by simp_all
  show ?case
  proof (cases "map_of es1 d")
    case None
    then have r: "descendA fails root es1 ds acc s = (acc', s')" using 4(4) by simp
    note IH = 4(1)[OF None r 4(5) dd(1)]
    show ?thesis using IH by (metis list.set_intros(2))
  next
    case (Some c)
    obtain c' s1 where w: "walkA fails (root @ [d]) c s = (c', s1)"
      by (cases "walkA fails (root @ [d]) c s") auto
    have r: "descendA fails root es1 ds (AList.update d c' acc) s1 = (acc', s')"
      using 4(4) Some w by simp
    have wfc: "wf_node c" using 4(5) map_of_SomeD[OF Some] by force
    note IH1 = 4(2)[OF Some w wfc]
    note IH2 = 4(3)[OF Some w[symmetric] r 4(5) dd(1)]
    have k2: "\<And>x. x \<notin> set ds \<Longrightarrow> map_of acc' x = map_of (AList.update d c' acc) x"
      using IH2 by blast
    have dc': "map_of acc' d = Some c'" using k2[OF dd(2)] by (simp add: update_conv')
    have A: "\<forall>x. x \<notin> set (d # ds) \<longrightarrow> map_of acc' x = map_of acc x"
    proof (intro allI impI)
      fix x assume "x \<notin> set (d # ds)"
      then have "x \<notin> set ds" "x \<noteq> d" by auto
      then show "map_of acc' x = map_of acc x" using k2 by (simp add: update_conv')
    qed
    have B: "\<forall>o' n. (o', n) \<in> set (renamed_folder_map s') \<longrightarrow>
        (o', n) \<in> set (renamed_folder_map s)
        \<or> (\<exists>d\<in>set (d # ds). \<exists>c c'. map_of es1 d = Some c \<and> map_of acc' d = Some c'
              \<and> moved fails (root @ [d]) c c' o' n)"
    proof (intro allI impI)
      fix o' n assume a: "(o', n) \<in> set (renamed_folder_map s')"
      consider "(o', n) \<in> set (renamed_folder_map s1)"
        | "\<exists>d\<in>set ds. \<exists>c c'. map_of es1 d = Some c \<and> map_of acc' d = Some c'
              \<and> moved fails (root @ [d]) c c' o' n"
        using IH2 a by blast
      then show "(o', n) \<in> set (renamed_folder_map s)
        \<or> (\<exists>d\<in>set (d # ds). \<exists>c c'. map_of es1 d = Some c \<and> map_of acc' d = Some c'
              \<and> moved fails (root @ [d]) c c' o' n)"
      proof cases
        case 1
        then consider "(o', n) \<in> set (renamed_folder_map s)" | "moved fails (root @ [d]) c c' o' n"
          using IH1 by blast
        then show ?thesis
        proof cases
          case 1
          then show ?thesis by (rule disjI1)
        next
          case 2
          then show ?thesis using Some dc' by auto
        qed
      next
        case 2
        then show ?thesis by auto
      qed
    qed
    show ?thesis using A B by (rule conjI)
  qed
qed

section \<open>Pass A on the whole tree\<close>

lemma lookup_append:
  "lookup fs (p @ q) = (case lookup fs p of None \<Rightarrow> None | Some nd \<Rightarrow> lookup nd q)"
  by (induction fs p rule: lookup.induct) (auto split: option.splits)

lemma map_of_update_entries:
  "map_of (map (\<lambda>e. if fst e = n then (fst e, f (snd e)) else e) es) x =
     (if x = n then map_option f (map_of es x) else map_of es x)"
  by (induction es) auto

lemma lookup_update_at:
  "lookup fs p = Some nd \<Longrightarrow> lookup (update_at fs p new) (p @ q) = lookup new q"
proof (induction fs p arbitrary: nd rule: lookup.induct)
  case (1 nd)
  then show ?case by simp
next
  case (2 b n p)
  then show ?case by simp
next
  case (3 es n p)
  then obtain c where c: "map_of es n = Some c" "lookup c p = Some nd"
    by (auto split: option.splits)
  show ?case using c 3(1)[OF c]
    by (simp add: map_of_update_entries[where f = "\<lambda>c. update_at c p new"])
qed

lemma wf_map_of: "wf_node (Dir es) \<Longrightarrow> map_of es n = Some c \<Longrightarrow> wf_node c"
  by (auto simp: list_all_iff dest!: map_of_SomeD)

lemma wf_lookup: "wf_node fs \<Longrightarrow> lookup fs p = Some nd \<Longrightarrow> wf_node nd"
proof (induction fs p rule: lookup.induct)
  case (1 nd)
  then show ?case by simp
next
  case (2 b n p)
  then show ?case by simp
next
  case (3 es n p)
  then obtain c where c: "map_of es n = Some c" "lookup c p = Some nd"
    by (auto split: option.splits)
  show ?case using 3(1)[OF c(1) wf_map_of[OF 3(2) c(1)] c(2)] .
qed

lemma passA_facts:
  assumes wf: "wf_node fs" and p: "passA fails fs base_path = (fs1, sA)"
  shows "good sA"
    and "\<forall>o' n. (o', n) \<in> set (renamed_folder_map sA) \<longrightarrow>
          ((\<exists>k. lookup fs o' = Some (Dir k) \<and> lookup fs1 n = Some (Dir k))
           \<and> lookup fs1 o' = None \<and> lookup fs n = None
           \<and> (\<exists>r d m. o' = r @ [d] \<and> n = r @ [m] \<and> folder_new_name d = Some m)
           \<and> \<not> fails o')"
proof -
  have "good sA \<and> (\<forall>o' n. (o', n) \<in> set (renamed_folder_map sA) \<longrightarrow>
          ((\<exists>k. lookup fs o' = Some (Dir k) \<and> lookup fs1 n = Some (Dir k))
           \<and> lookup fs1 o' = None \<and> lookup fs n = None
           \<and> (\<exists>r d m. o' = r @ [d] \<and> n = r @ [m] \<and> folder_new_name d = Some m)
           \<and> \<not> fails o'))"
  proof (cases "lookup fs base_path")
    case None
    then have "sA = initA" using p by (simp add: passA_def)
    then show ?thesis by (simp add: good_init) (simp add: initA_def)
  next
    case (Some nd)
    obtain nd' s where w: "walkA fails base_path nd initA = (nd', s)"
      by (cases "walkA fails base_path nd initA") auto
    have r: "fs1 = update_at fs base_path nd'" "sA = s" using p Some w by (simp_all add: passA_def)
    have wn: "wf_node nd" by (rule wf_lookup[OF wf Some])
    have g: "good s" by (rule good_walk(1)[OF w wn good_init pre_init])
    have m: "\<forall>o' n. (o', n) \<in> set (renamed_folder_map s) \<longrightarrow> moved fails base_path nd nd' o' n"
      using moved_walk(1)[OF w wn] by (simp add: initA_def)
    have "\<forall>o' n. (o', n) \<in> set (renamed_folder_map s) \<longrightarrow>
          ((\<exists>k. lookup fs o' = Some (Dir k) \<and> lookup fs1 n = Some (Dir k))
           \<and> lookup fs1 o' = None \<and> lookup fs n = None
           \<and> (\<exists>r d m. o' = r @ [d] \<and> n = r @ [m] \<and> folder_new_name d = Some m)
           \<and> \<not> fails o')"
    proof (intro allI impI)
      fix o' n assume "(o', n) \<in> set (renamed_folder_map s)"
      then obtain po pn k where e: "o' = base_path @ po" "n = base_path @ pn"
          "lookup nd po = Some (Dir k)" "lookup nd' pn = Some (Dir k)" "lookup nd' po = None"
          "lookup nd pn = None"
        using m unfolding moved_def by blast
      have sh: "(\<exists>r d m. o' = r @ [d] \<and> n = r @ [m] \<and> folder_new_name d = Some m)"
        and nf: "\<not> fails o'"
        using m \<open>(o', n) \<in> set (renamed_folder_map s)\<close> unfolding moved_def by blast+
      have "lookup fs o' = Some (Dir k)" unfolding e(1) using Some e(3) by (simp add: lookup_append)
      moreover have "lookup fs1 n = Some (Dir k)"
        unfolding e(2) r(1) using lookup_update_at[OF Some] e(4) by simp
      ultimately have a: "\<exists>k. lookup fs o' = Some (Dir k) \<and> lookup fs1 n = Some (Dir k)"
        by blast
      have b: "lookup fs1 o' = None"
        unfolding e(1) r(1) using lookup_update_at[OF Some] e(5) by simp
      have c: "lookup fs n = None" unfolding e(2) using Some e(6) by (simp add: lookup_append)
      show "((\<exists>k. lookup fs o' = Some (Dir k) \<and> lookup fs1 n = Some (Dir k))
           \<and> lookup fs1 o' = None \<and> lookup fs n = None
           \<and> (\<exists>r d m. o' = r @ [d] \<and> n = r @ [m] \<and> folder_new_name d = Some m)
           \<and> \<not> fails o')"
        using a b c sh nf by (intro conjI)
    qed
    then show ?thesis using g r(2) by simp
  qed
  then show "good sA"
    and "\<forall>o' n. (o', n) \<in> set (renamed_folder_map sA) \<longrightarrow>
          ((\<exists>k. lookup fs o' = Some (Dir k) \<and> lookup fs1 n = Some (Dir k))
           \<and> lookup fs1 o' = None \<and> lookup fs n = None
           \<and> (\<exists>r d m. o' = r @ [d] \<and> n = r @ [m] \<and> folder_new_name d = Some m)
           \<and> \<not> fails o')"
    by blast+
qed

text \<open>
  C7. On a tree whose directories have distinct names, Pass A examines no path twice. For
  every pair of the dict, the old path was examined and the new path never is, so the
  renamed directory is not processed again; and the walk visits neither the old path nor
  the new one, and after the pass nothing exists at the old path.
\<close>

theorem C7_no_reprocessing:
  assumes "wf_node fs" and "passA fails fs base_path = (fs1, sA)"
  shows "distinct (examined sA)
    \<and> (\<forall>o' n. (o', n) \<in> set (renamed_folder_map sA) \<longrightarrow>
          o' \<in> set (examined sA) \<and> n \<notin> set (examined sA)
          \<and> o' \<notin> set (visited sA) \<and> n \<notin> set (visited sA) \<and> lookup fs1 o' = None)"
proof -
  note g = passA_facts(1)[OF assms] and t = passA_facts(2)[OF assms]
  have d: "distinct (examined sA)" using g unfolding good_def by blast
  have "\<forall>o' n. (o', n) \<in> set (renamed_folder_map sA) \<longrightarrow>
          o' \<in> set (examined sA) \<and> n \<notin> set (examined sA)
          \<and> o' \<notin> set (visited sA) \<and> n \<notin> set (visited sA) \<and> lookup fs1 o' = None"
  proof (intro allI impI)
    fix o' n assume a: "(o', n) \<in> set (renamed_folder_map sA)"
    have 1: "\<forall>v\<in>set (visited sA). \<not> prefix o' v \<and> \<not> prefix n v"
      and 2: "n \<notin> set (examined sA)" "o' \<in> set (examined sA)"
      using g a unfolding good_def by blast+
    have "o' \<notin> set (visited sA)" "n \<notin> set (visited sA)" using 1 by auto
    moreover have "lookup fs1 o' = None" using t a by blast
    ultimately show "o' \<in> set (examined sA) \<and> n \<notin> set (examined sA)
          \<and> o' \<notin> set (visited sA) \<and> n \<notin> set (visited sA) \<and> lookup fs1 o' = None"
      using 2 by simp
  qed
  then show ?thesis using d by simp
qed



theorem C7_no_reprocessing_witness:
  "wf_node (Dir [(''AC001'', Dir [(''AC7'', Dir [])]), (''x'', Dir [(''ac12'', Dir [])])])
   \<and> ([''AC001''], [''1'']) \<in> set (renamed_folder_map (snd (passA (\<lambda>p. False) (Dir [(''AC001'', Dir [(''AC7'', Dir [])]), (''x'', Dir [(''ac12'', Dir [])])]) [])))
   \<and> distinct (examined (snd (passA (\<lambda>p. False) (Dir [(''AC001'', Dir [(''AC7'', Dir [])]), (''x'', Dir [(''ac12'', Dir [])])]) [])))
   \<and> [''AC001''] \<in> set (examined (snd (passA (\<lambda>p. False) (Dir [(''AC001'', Dir [(''AC7'', Dir [])]), (''x'', Dir [(''ac12'', Dir [])])]) [])))
   \<and> [''1''] \<notin> set (examined (snd (passA (\<lambda>p. False) (Dir [(''AC001'', Dir [(''AC7'', Dir [])]), (''x'', Dir [(''ac12'', Dir [])])]) [])))
   \<and> [''AC001''] \<notin> set (visited (snd (passA (\<lambda>p. False) (Dir [(''AC001'', Dir [(''AC7'', Dir [])]), (''x'', Dir [(''ac12'', Dir [])])]) [])))
   \<and> [''1''] \<notin> set (visited (snd (passA (\<lambda>p. False) (Dir [(''AC001'', Dir [(''AC7'', Dir [])]), (''x'', Dir [(''ac12'', Dir [])])]) [])))
   \<and> lookup (fst (passA (\<lambda>p. False) (Dir [(''AC001'', Dir [(''AC7'', Dir [])]), (''x'', Dir [(''ac12'', Dir [])])]) [])) [''AC001''] = None"
proof -
  have h1: "wf_node (Dir [(''AC001'', Dir [(''AC7'', Dir [])]), (''x'', Dir [(''ac12'', Dir [])])])" by simp
  have h2: "passA (\<lambda>p. False) (Dir [(''AC001'', Dir [(''AC7'', Dir [])]), (''x'', Dir [(''ac12'', Dir [])])]) [] = (fst (passA (\<lambda>p. False) (Dir [(''AC001'', Dir [(''AC7'', Dir [])]), (''x'', Dir [(''ac12'', Dir [])])]) []), snd (passA (\<lambda>p. False) (Dir [(''AC001'', Dir [(''AC7'', Dir [])]), (''x'', Dir [(''ac12'', Dir [])])]) []))" by simp
  have h3: "([''AC001''], [''1'']) \<in> set (renamed_folder_map (snd (passA (\<lambda>p. False) (Dir [(''AC001'', Dir [(''AC7'', Dir [])]), (''x'', Dir [(''ac12'', Dir [])])]) [])))" by code_simp
  show ?thesis using h1 h3 C7_no_reprocessing[OF h1 h2] by blast
qed


section \<open>A folder whose new name is taken\<close>



lemma snoc_eq_snoc: "r @ [d] = r' @ [d'] \<longleftrightarrow> r = r' \<and> d = d'"
  by simp




section \<open>Facts about Pass B and about the log of Pass A\<close>

definition dir_at :: "node \<Rightarrow> path \<Rightarrow> bool" where
  "dir_at fs p = (case lookup fs p of Some (Dir es) \<Rightarrow> True | _ \<Rightarrow> False)"




lemma map_fst_update_entries:
  "map fst (map (\<lambda>e. if fst e = n then (fst e, f (snd e)) else e) es) = map fst es"
  by (induction es) auto

















section \<open>Failures of single entries, and what Pass B scans\<close>




lemma os_rename_nodes:
  "os_rename fails q es f g = Inr es' \<Longrightarrow> set (map snd es') \<subseteq> set (map snd es)"
proof -
  have a: "set (map snd (delete_entry es g)) \<subseteq> set (map snd es)"
    by (auto simp: delete_entry_def)
  assume "os_rename fails q es f g = Inr es'"
  then have "es' = es \<or> es' = rename_entry es f g \<or> es' = rename_entry (delete_entry es g) f g"
    by (auto simp: os_rename_def split: if_splits option.splits node.splits)
  then show ?thesis using a by (auto simp only: map_snd_rename_entry)
qed

lemma file_step_nodes:
  "set (map snd (fst (file_step fails q f (es, s)))) \<subseteq> set (map snd es)"
  using os_rename_nodes
  by (auto simp: file_step_def Let_def split: option.splits sum.splits)

lemma file_loop_nodes:
  "fold (file_step fails q) names (es, s) = (es', s') \<Longrightarrow> set (map snd es') \<subseteq> set (map snd es)"
proof (induction names arbitrary: es s)
  case Nil
  then show ?case by simp
next
  case (Cons f names)
  obtain es1 s1 where r: "file_step fails q f (es, s) = (es1, s1)"
    by (cases "file_step fails q f (es, s)") auto
  have a: "set (map snd es1) \<subseteq> set (map snd es)"
    using file_step_nodes[of fails q f es s] r by simp
  have "fold (file_step fails q) names (es1, s1) = (es', s')" using Cons.prems r by simp
  from Cons.IH[OF this] a show ?case by blast
qed






section \<open>Names that the passes produce\<close>

lemma map_of_rename_entry_other:
  "x \<noteq> d \<Longrightarrow> x \<noteq> m \<Longrightarrow> map_of (rename_entry es d m) x = map_of es x"
  by (induction es) (auto simp: rename_entry_def)

lemma map_of_delete_entry_other:
  "x \<noteq> n \<Longrightarrow> map_of (delete_entry es n) x = map_of es x"
  by (induction es) (auto simp: delete_entry_def)

lemma os_rename_other:
  assumes "os_rename fails q es x y = Inr es'" and "g \<noteq> x" and "g \<noteq> y"
  shows "map_of es' g = map_of es g"
proof -
  from assms(1) have "es' = es \<or> es' = rename_entry es x y
      \<or> es' = rename_entry (delete_entry es y) x y"
    by (auto simp: os_rename_def split: if_splits option.splits node.splits)
  then show ?thesis
    using assms(2,3) by (auto simp: map_of_rename_entry_other map_of_delete_entry_other)
qed

lemma file_step_other:
  assumes "file_new_name g = None" and "file_new_name x \<noteq> Some g"
  shows "map_of (fst (file_step fails q x (es, s))) g = map_of es g"
proof (cases "file_new_name x")
  case None
  then show ?thesis by (simp add: file_step_None)
next
  case (Some y)
  then have ne: "g \<noteq> x" "g \<noteq> y" using assms by auto
  show ?thesis
  proof (cases "os_rename fails q es x y")
    case (Inl e)
    then show ?thesis by (simp add: file_step_Some[OF Some])
  next
    case (Inr es')
    then show ?thesis using os_rename_other[OF Inr ne] by (simp add: file_step_Some[OF Some])
  qed
qed

lemma file_loop_other:
  "file_new_name g = None \<Longrightarrow> \<forall>x\<in>set names. file_new_name x \<noteq> Some g \<Longrightarrow>
   fold (file_step fails q) names (es, s) = (es', s') \<Longrightarrow> map_of es' g = map_of es g"
proof (induction names arbitrary: es s)
  case Nil
  then show ?case by simp
next
  case (Cons x names)
  obtain es1 s1 where r: "file_step fails q x (es, s) = (es1, s1)"
    by (cases "file_step fails q x (es, s)") auto
  have a: "map_of es1 g = map_of es g"
    using file_step_other[OF Cons.prems(1), of x fails q es s] Cons.prems(2) r by simp
  have "fold (file_step fails q) names (es1, s1) = (es', s')" using Cons.prems(3) r by simp
  from Cons.IH[OF Cons.prems(1) _ this] Cons.prems(2) a show ?case by simp
qed

text \<open>
  C6, as amended. The name Pass A gives a folder with an ASCII name gets no new name from
  Pass A: the loop body of Pass A leaves an entry of that name alone, the loop of Pass A
  over a directory leaves an entry of that name in place with its content, and no folder
  that Pass A renames has that name. The name Pass B gives a file gets no new name from
  Pass B: the loop body of Pass B leaves an entry of that name alone, and the loop of Pass B
  over a listing of ASCII names in which no name gets that name leaves the entry of that
  name in place with its content.
\<close>

theorem C6_renamed_names_stay:
  "(ascii d \<and> folder_new_name d = Some m \<longrightarrow>
      folder_new_name m = None
      \<and> folder_step fails root m (es, dirs, s)
          = (es, dirs, s\<lparr>examined := examined s @ [root @ [m]]\<rparr>)
      \<and> (distinct (map fst es) \<and> map_of es m \<noteq> None
           \<and> folder_loop fails root es s = (es1, dirs1, s1) \<longrightarrow> map_of es1 m = map_of es m)
      \<and> (wf_node fs \<and> passA fails fs base_path = (fs1, sA) \<longrightarrow>
           (\<forall>o' n. (o', n) \<in> set (renamed_folder_map sA) \<longrightarrow> last o' \<noteq> m)))
   \<and> (file_new_name f = Some g \<longrightarrow>
      file_new_name g = None \<and> fst (file_step fails folder_path g (esB, sB)) = esB
      \<and> (list_all ascii names \<and> (\<forall>x\<in>set names. file_new_name x \<noteq> Some g)
           \<and> fold (file_step fails folder_path) names (esB, sB) = (esB', sB') \<longrightarrow>
           map_of esB' g = map_of esB g))"
proof (intro conjI impI)
  assume a: "ascii d \<and> folder_new_name d = Some m"
  then show n: "folder_new_name m = None" using folder_new_name_idem by blast
  then show "folder_step fails root m (es, dirs, s)
          = (es, dirs, s\<lparr>examined := examined s @ [root @ [m]]\<rparr>)"
    by (rule folder_step_None)
  {
    assume b: "distinct (map fst es) \<and> map_of es m \<noteq> None
           \<and> folder_loop fails root es s = (es1, dirs1, s1)"
    then have d: "distinct (map fst es)" and l: "folder_loop fails root es s = (es1, dirs1, s1)"
      and e: "map_of es m \<noteq> None" by blast+
    show "map_of es1 m = map_of es m"
      using folder_loop_facts(9)[OF d l] n e by blast
  }
  {
    assume b: "wf_node fs \<and> passA fails fs base_path = (fs1, sA)"
    then have wf: "wf_node fs" and p: "passA fails fs base_path = (fs1, sA)" by blast+
    show "\<forall>o' n. (o', n) \<in> set (renamed_folder_map sA) \<longrightarrow> last o' \<noteq> m"
    proof (intro allI impI)
      fix o' n assume "(o', n) \<in> set (renamed_folder_map sA)"
      with passA_facts(2)[OF wf p]
      obtain r d' m' where "o' = r @ [d']" "folder_new_name d' = Some m'" by blast
      then show "last o' \<noteq> m" using n by auto
    qed
  }
next
  assume a: "file_new_name f = Some g"
  then show n: "file_new_name g = None" by (rule file_new_name_idem)
  then show "fst (file_step fails folder_path g (esB, sB)) = esB" by (rule file_step_None)
  {
    assume b: "list_all ascii names \<and> (\<forall>x\<in>set names. file_new_name x \<noteq> Some g)
           \<and> fold (file_step fails folder_path) names (esB, sB) = (esB', sB')"
    then show "map_of esB' g = map_of esB g" using file_loop_other[OF n] by blast
  }
qed


theorem C6_renamed_names_stay_witness:
  "ascii ''AC001'' \<and> folder_new_name ''AC001'' = Some ''1'' \<and> folder_new_name ''1'' = None
   \<and> folder_step (\<lambda>p. False) [] ''1'' ([(''1'', Dir [])], [''1''], initA)
       = ([(''1'', Dir [])], [''1''], initA\<lparr>examined := examined initA @ [[] @ [''1'']]\<rparr>)
   \<and> fst (folder_loop (\<lambda>p. False) [] [(''1'', Dir []), (''AC2'', Dir [])] initA) = [(''1'', Dir []), (''2'', Dir [])]
   \<and> map_of (fst (folder_loop (\<lambda>p. False) [] [(''1'', Dir []), (''AC2'', Dir [])] initA)) ''1'' = map_of [(''1'', Dir []), (''AC2'', Dir [])] ''1''
   \<and> ([''1'', ''AC2''], [''1'', ''2'']) \<in> set (renamed_folder_map (snd (passA (\<lambda>p. False) (Dir [(''1'', Dir [(''AC2'', Dir [])]), (''z'', File ''w'')]) [])))
   \<and> last [''1'', ''AC2''] \<noteq> ''1''
   \<and> file_new_name ''S03A0010095.pdf'' = Some ''S03_1_95.pdf''
   \<and> file_new_name ''S03_1_95.pdf'' = None
   \<and> fst (file_step (\<lambda>p. False) [''1''] ''S03_1_95.pdf'' ([(''S03_1_95.pdf'', File ''x'')], initB))
       = [(''S03_1_95.pdf'', File ''x'')]
   \<and> fst (fold (file_step (\<lambda>p. False) [''1'']) [''S03_1_95.pdf'', ''S04A0010095.pdf''] ([(''S03_1_95.pdf'', File ''x''), (''S04A0010095.pdf'', File ''y'')], initB)) = [(''S03_1_95.pdf'', File ''x''), (''S04_1_95.pdf'', File ''y'')]
   \<and> map_of (fst (fold (file_step (\<lambda>p. False) [''1'']) [''S03_1_95.pdf'', ''S04A0010095.pdf''] ([(''S03_1_95.pdf'', File ''x''), (''S04A0010095.pdf'', File ''y'')], initB))) ''S03_1_95.pdf'' = map_of [(''S03_1_95.pdf'', File ''x''), (''S04A0010095.pdf'', File ''y'')] ''S03_1_95.pdf''"
proof -
  have k: "ascii ''AC001''" by (simp add: ascii_def)
  have a: "folder_new_name ''AC001'' = Some ''1''" by code_simp
  have b: "file_new_name ''S03A0010095.pdf'' = Some ''S03_1_95.pdf''" by code_simp
  have h1: "distinct (map fst [(''1'', Dir []), (''AC2'', Dir [])])" "map_of [(''1'', Dir []), (''AC2'', Dir [])] ''1'' \<noteq> None" by simp_all
  have h2: "folder_loop (\<lambda>p. False) [] [(''1'', Dir []), (''AC2'', Dir [])] initA =
      (fst (folder_loop (\<lambda>p. False) [] [(''1'', Dir []), (''AC2'', Dir [])] initA),
       fst (snd (folder_loop (\<lambda>p. False) [] [(''1'', Dir []), (''AC2'', Dir [])] initA)),
       snd (snd (folder_loop (\<lambda>p. False) [] [(''1'', Dir []), (''AC2'', Dir [])] initA)))" by simp
  have h3: "wf_node (Dir [(''1'', Dir [(''AC2'', Dir [])]), (''z'', File ''w'')])" by simp
  have h4: "passA (\<lambda>p. False) (Dir [(''1'', Dir [(''AC2'', Dir [])]), (''z'', File ''w'')]) [] = (fst (passA (\<lambda>p. False) (Dir [(''1'', Dir [(''AC2'', Dir [])]), (''z'', File ''w'')]) []), snd (passA (\<lambda>p. False) (Dir [(''1'', Dir [(''AC2'', Dir [])]), (''z'', File ''w'')]) []))" by simp
  have h5: "([''1'', ''AC2''], [''1'', ''2'']) \<in> set (renamed_folder_map (snd (passA (\<lambda>p. False) (Dir [(''1'', Dir [(''AC2'', Dir [])]), (''z'', File ''w'')]) [])))"
    by code_simp
  have h6: "file_new_name ''S03_1_95.pdf'' \<noteq> Some ''S03_1_95.pdf''"
    "file_new_name ''S04A0010095.pdf'' \<noteq> Some ''S03_1_95.pdf''"
    by code_simp+
  have h7: "\<forall>x\<in>set [''S03_1_95.pdf'', ''S04A0010095.pdf'']. file_new_name x \<noteq> Some ''S03_1_95.pdf''"
    using h6 by simp
  have h9: "list_all ascii [''S03_1_95.pdf'', ''S04A0010095.pdf'']" by (simp add: ascii_def)
  have h8: "fold (file_step (\<lambda>p. False) [''1'']) [''S03_1_95.pdf'', ''S04A0010095.pdf''] ([(''S03_1_95.pdf'', File ''x''), (''S04A0010095.pdf'', File ''y'')], initB) = (fst (fold (file_step (\<lambda>p. False) [''1'']) [''S03_1_95.pdf'', ''S04A0010095.pdf''] ([(''S03_1_95.pdf'', File ''x''), (''S04A0010095.pdf'', File ''y'')], initB)), snd (fold (file_step (\<lambda>p. False) [''1'']) [''S03_1_95.pdf'', ''S04A0010095.pdf''] ([(''S03_1_95.pdf'', File ''x''), (''S04A0010095.pdf'', File ''y'')], initB)))" by simp
  have v1: "fst (folder_loop (\<lambda>p. False) [] [(''1'', Dir []), (''AC2'', Dir [])] initA) = [(''1'', Dir []), (''2'', Dir [])]"
    by code_simp
  have v2: "fst (fold (file_step (\<lambda>p. False) [''1'']) [''S03_1_95.pdf'', ''S04A0010095.pdf''] ([(''S03_1_95.pdf'', File ''x''), (''S04A0010095.pdf'', File ''y'')], initB)) = [(''S03_1_95.pdf'', File ''x''), (''S04_1_95.pdf'', File ''y'')]"
    by code_simp
  note T = C6_renamed_names_stay[where d = "''AC001''" and m = "''1''"
      and fails = "\<lambda>p. False" and root = "[]" and s = initA
      and f = "''S03A0010095.pdf''" and g = "''S03_1_95.pdf''" and folder_path = "[''1'']"
      and sB = initB and names = "[''S03_1_95.pdf'', ''S04A0010095.pdf'']"]
  note T1 = T[where es = "[(''1'', Dir [])]" and dirs = "[''1'']"
      and esB = "[(''S03_1_95.pdf'', File ''x'')]"]
  note T2 = T[where es = "[(''1'', Dir []), (''AC2'', Dir [])]"
      and ?es1.0 = "fst (folder_loop (\<lambda>p. False) [] [(''1'', Dir []), (''AC2'', Dir [])] initA)"
      and ?dirs1.0 = "fst (snd (folder_loop (\<lambda>p. False) [] [(''1'', Dir []), (''AC2'', Dir [])] initA))"
      and ?s1.0 = "snd (snd (folder_loop (\<lambda>p. False) [] [(''1'', Dir []), (''AC2'', Dir [])] initA))"
      and fs = "(Dir [(''1'', Dir [(''AC2'', Dir [])]), (''z'', File ''w'')])" and base_path = "[]"
      and ?fs1.0 = "fst (passA (\<lambda>p. False) (Dir [(''1'', Dir [(''AC2'', Dir [])]), (''z'', File ''w'')]) [])" and sA = "snd (passA (\<lambda>p. False) (Dir [(''1'', Dir [(''AC2'', Dir [])]), (''z'', File ''w'')]) [])"
      and esB = "[(''S03_1_95.pdf'', File ''x''), (''S04A0010095.pdf'', File ''y'')]" and esB' = "fst (fold (file_step (\<lambda>p. False) [''1'']) [''S03_1_95.pdf'', ''S04A0010095.pdf''] ([(''S03_1_95.pdf'', File ''x''), (''S04A0010095.pdf'', File ''y'')], initB))" and sB' = "snd (fold (file_step (\<lambda>p. False) [''1'']) [''S03_1_95.pdf'', ''S04A0010095.pdf''] ([(''S03_1_95.pdf'', File ''x''), (''S04A0010095.pdf'', File ''y'')], initB))"]
  have c1: "folder_new_name ''1'' = None"
    "folder_step (\<lambda>p. False) [] ''1'' ([(''1'', Dir [])], [''1''], initA)
       = ([(''1'', Dir [])], [''1''], initA\<lparr>examined := examined initA @ [[] @ [''1'']]\<rparr>)"
    using T1 k a by blast+
  have c2: "map_of (fst (folder_loop (\<lambda>p. False) [] [(''1'', Dir []), (''AC2'', Dir [])] initA)) ''1'' = map_of [(''1'', Dir []), (''AC2'', Dir [])] ''1''"
    using T2 k a h1 h2 by blast
  have c3: "last [''1'', ''AC2''] \<noteq> ''1''"
    using T2 k a h3 h4 h5 by blast
  have c4: "file_new_name ''S03_1_95.pdf'' = None"
    "fst (file_step (\<lambda>p. False) [''1''] ''S03_1_95.pdf'' ([(''S03_1_95.pdf'', File ''x'')], initB))
       = [(''S03_1_95.pdf'', File ''x'')]"
    using T1 b by blast+
  have c5: "map_of (fst (fold (file_step (\<lambda>p. False) [''1'']) [''S03_1_95.pdf'', ''S04A0010095.pdf''] ([(''S03_1_95.pdf'', File ''x''), (''S04A0010095.pdf'', File ''y'')], initB))) ''S03_1_95.pdf'' = map_of [(''S03_1_95.pdf'', File ''x''), (''S04A0010095.pdf'', File ''y'')] ''S03_1_95.pdf''"
    using T2 b h9 h7 h8 by blast
  show ?thesis using k a c1 v1 c2 h5 c3 b c4 v2 c5 by blast
qed

text \<open>
  The run as a whole is not idempotent: run again on the extracted archive of its own
  output, it gives another archive. In the first tree the first run renames \<open>AC1\<close> to
  \<open>1\<close> and does not go into it; the second run goes into \<open>1\<close>, renames \<open>AC2\<close> and
  then the file in it. In the second tree the first run leaves \<open>AC1\<close> because of the
  empty directory \<open>1\<close>, and renames \<open>AC2\<close> and its file; the archive holds no empty
  directory, so the second run renames \<open>AC1\<close>, and the file the first run renamed is
  in the second archive under another path.
\<close>

theorem C6_pipeline_not_idempotent:
  "pipeline (\<lambda>p. False) (Dir [(''AC1'', Dir [(''AC2'', Dir [(''S03A0010095.pdf'', File ''x'')])]), (''z'', File ''w'')]) = Inr (Dir [(''1'', Dir [(''AC2'', Dir [(''S03A0010095.pdf'', File ''x'')])]), (''z'', File ''w'')], [([''z''], ''w''), ([''1'', ''AC2'', ''S03A0010095.pdf''], ''x'')])
   \<and> extractall [([''z''], ''w''), ([''1'', ''AC2'', ''S03A0010095.pdf''], ''x'')] = Inr (Dir [(''z'', File ''w''), (''1'', Dir [(''AC2'', Dir [(''S03A0010095.pdf'', File ''x'')])])])
   \<and> pipeline (\<lambda>p. False) (Dir [(''z'', File ''w''), (''1'', Dir [(''AC2'', Dir [(''S03A0010095.pdf'', File ''x'')])])]) = Inr (Dir [(''z'', File ''w''), (''1'', Dir [(''2'', Dir [(''S03_1_95.pdf'', File ''x'')])])], [([''z''], ''w''), ([''1'', ''2'', ''S03_1_95.pdf''], ''x'')])
   \<and> [([''z''], ''w''), ([''1'', ''2'', ''S03_1_95.pdf''], ''x'')] \<noteq> [([''z''], ''w''), ([''1'', ''AC2'', ''S03A0010095.pdf''], ''x'')]
   \<and> pipeline (\<lambda>p. False) (Dir [(''AC1'', Dir [(''AC2'', Dir [(''S03A0010095.pdf'', File ''x'')])]), (''1'', Dir []), (''z'', File ''w'')]) = Inr (Dir [(''AC1'', Dir [(''2'', Dir [(''S03_1_95.pdf'', File ''x'')])]), (''1'', Dir []), (''z'', File ''w'')], [([''z''], ''w''), ([''AC1'', ''2'', ''S03_1_95.pdf''], ''x'')])
   \<and> extractall [([''z''], ''w''), ([''AC1'', ''2'', ''S03_1_95.pdf''], ''x'')] = Inr (Dir [(''z'', File ''w''), (''AC1'', Dir [(''2'', Dir [(''S03_1_95.pdf'', File ''x'')])])])
   \<and> pipeline (\<lambda>p. False) (Dir [(''z'', File ''w''), (''AC1'', Dir [(''2'', Dir [(''S03_1_95.pdf'', File ''x'')])])]) = Inr (Dir [(''z'', File ''w''), (''1'', Dir [(''2'', Dir [(''S03_1_95.pdf'', File ''x'')])])], [([''z''], ''w''), ([''1'', ''2'', ''S03_1_95.pdf''], ''x'')])
   \<and> [([''z''], ''w''), ([''1'', ''2'', ''S03_1_95.pdf''], ''x'')] \<noteq> [([''z''], ''w''), ([''AC1'', ''2'', ''S03_1_95.pdf''], ''x'')]"
proof -
  have a1: "pipeline (\<lambda>p. False) (Dir [(''AC1'', Dir [(''AC2'', Dir [(''S03A0010095.pdf'', File ''x'')])]), (''z'', File ''w'')]) = Inr (Dir [(''1'', Dir [(''AC2'', Dir [(''S03A0010095.pdf'', File ''x'')])]), (''z'', File ''w'')], [([''z''], ''w''), ([''1'', ''AC2'', ''S03A0010095.pdf''], ''x'')])" by code_simp
  have a2: "extractall [([''z''], ''w''), ([''1'', ''AC2'', ''S03A0010095.pdf''], ''x'')] = Inr (Dir [(''z'', File ''w''), (''1'', Dir [(''AC2'', Dir [(''S03A0010095.pdf'', File ''x'')])])])" by code_simp
  have a3: "pipeline (\<lambda>p. False) (Dir [(''z'', File ''w''), (''1'', Dir [(''AC2'', Dir [(''S03A0010095.pdf'', File ''x'')])])]) = Inr (Dir [(''z'', File ''w''), (''1'', Dir [(''2'', Dir [(''S03_1_95.pdf'', File ''x'')])])], [([''z''], ''w''), ([''1'', ''2'', ''S03_1_95.pdf''], ''x'')])" by code_simp
  have a4: "[([''z''], ''w''), ([''1'', ''2'', ''S03_1_95.pdf''], ''x'')] \<noteq> [([''z''], ''w''), ([''1'', ''AC2'', ''S03A0010095.pdf''], ''x'')]" by simp
  have b1: "pipeline (\<lambda>p. False) (Dir [(''AC1'', Dir [(''AC2'', Dir [(''S03A0010095.pdf'', File ''x'')])]), (''1'', Dir []), (''z'', File ''w'')]) = Inr (Dir [(''AC1'', Dir [(''2'', Dir [(''S03_1_95.pdf'', File ''x'')])]), (''1'', Dir []), (''z'', File ''w'')], [([''z''], ''w''), ([''AC1'', ''2'', ''S03_1_95.pdf''], ''x'')])" by code_simp
  have b2: "extractall [([''z''], ''w''), ([''AC1'', ''2'', ''S03_1_95.pdf''], ''x'')] = Inr (Dir [(''z'', File ''w''), (''AC1'', Dir [(''2'', Dir [(''S03_1_95.pdf'', File ''x'')])])])" by code_simp
  have b3: "pipeline (\<lambda>p. False) (Dir [(''z'', File ''w''), (''AC1'', Dir [(''2'', Dir [(''S03_1_95.pdf'', File ''x'')])])]) = Inr (Dir [(''z'', File ''w''), (''1'', Dir [(''2'', Dir [(''S03_1_95.pdf'', File ''x'')])])], [([''z''], ''w''), ([''1'', ''2'', ''S03_1_95.pdf''], ''x'')])" by code_simp
  have b4: "[([''z''], ''w''), ([''1'', ''2'', ''S03_1_95.pdf''], ''x'')] \<noteq> [([''z''], ''w''), ([''AC1'', ''2'', ''S03_1_95.pdf''], ''x'')]" by simp
  show ?thesis using a1 a2 a3 a4 b1 b2 b3 b4 by (intro conjI)
qed

section \<open>Two files with the same new name\<close>

lemma map_of_delete_entry_self: "map_of (delete_entry es n) n = None"
  by (induction es) (auto simp: delete_entry_def)

lemma distinct_delete_entry:
  "distinct (map fst es) \<Longrightarrow> distinct (map fst (delete_entry es n))"
  by (simp add: delete_entry_def distinct_map_filter)

lemma os_rename_map:
  assumes d: "distinct (map fst es)" and r: "os_rename fails q es x y = Inr es'" and ne: "x \<noteq> y"
  shows "distinct (map fst es')"
    and "map_of es' z = (if z = y then map_of es x else if z = x then None else map_of es z)"
proof -
  from r ne have c: "(map_of es y = None \<and> es' = rename_entry es x y)
      \<or> es' = rename_entry (delete_entry es y) x y"
    by (auto simp: os_rename_def split: if_splits option.splits node.splits)
  have "distinct (map fst es')
    \<and> map_of es' z = (if z = y then map_of es x else if z = x then None else map_of es z)"
    using c
  proof
    assume a: "map_of es y = None \<and> es' = rename_entry es x y"
    then show ?thesis
      using distinct_rename_entry[OF d, of y x] map_of_rename_entry[of es y x z] by simp
  next
    assume a: "es' = rename_entry (delete_entry es y) x y"
    let ?e = "delete_entry es y"
    have n: "map_of ?e y = None" by (rule map_of_delete_entry_self)
    have d': "distinct (map fst ?e)" by (rule distinct_delete_entry[OF d])
    have o: "\<And>v. v \<noteq> y \<Longrightarrow> map_of ?e v = map_of es v"
      by (rule map_of_delete_entry_other)
    have "map_of es' z = (if z = y then map_of ?e x else if z = x then None else map_of ?e z)"
      unfolding a by (rule map_of_rename_entry[OF n])
    then have "map_of es' z = (if z = y then map_of es x else if z = x then None else map_of es z)"
      using o ne by auto
    moreover have "distinct (map fst es')"
      unfolding a by (rule distinct_rename_entry[OF d' n])
    ultimately show ?thesis by simp
  qed
  then show "distinct (map fst es')"
    and "map_of es' z = (if z = y then map_of es x else if z = x then None else map_of es z)"
    by simp_all
qed











section \<open>The archive of the result\<close>

lemma file_at_Nil_Dir: "file_at (Dir es) [] = None"
  by (simp add: file_at_def)

lemma file_at_Cons:
  "file_at (Dir es) (n # p) = (case map_of es n of None \<Rightarrow> None | Some c \<Rightarrow> file_at c p)"
  by (simp add: file_at_def split: option.splits)

lemma file_at_File: "file_at (File x) p = (if p = [] then Some x else None)"
  by (cases p) (simp_all add: file_at_def)

lemma dir_at_Nil: "dir_at nd [] = is_dir nd"
  by (cases nd) (simp_all add: dir_at_def)

lemma dir_at_Cons:
  "dir_at (Dir es) (n # p) = (case map_of es n of None \<Rightarrow> False | Some c \<Rightarrow> dir_at c p)"
  by (simp add: dir_at_def split: option.splits)

lemma dir_at_File: "dir_at (File x) p = False"
  by (cases p) (simp_all add: dir_at_def)

lemma map_of_snoc_fresh:
  "map_of es n = None \<Longrightarrow> map_of (es @ [(n, c)]) k = (if k = n then Some c else map_of es k)"
  by (auto simp: map_add_def split: option.splits)

lemma map_of_update_conv:
  "map_of (AList.update n c es) k = (if k = n then Some c else map_of es k)"
  by (simp add: update_conv')

text \<open>What one member of the archive changes in the tree it is extracted into.\<close>

lemma extract_member_file_at:
  "extract_member nd p b = Inr nd' \<Longrightarrow>
   file_at nd' q = (if q = p then Some b else file_at nd q)"
proof (induction nd p b arbitrary: nd' q rule: extract_member.induct)
  case (1 nd b)
  then show ?case by simp
next
  case (2 x n p b)
  then show ?case by simp
next
  case (3 es n b)
  show ?case
  proof (cases q)
    case Nil
    then show ?thesis using 3 by (auto simp: file_at_Nil_Dir split: option.splits node.splits)
  next
    case (Cons k q')
    show ?thesis
    proof (cases "map_of es n")
      case None
      then have r: "nd' = Dir (es @ [(n, File b)])" using 3 by simp
      show ?thesis unfolding r Cons
        by (auto simp add: file_at_Cons map_of_snoc_fresh[OF None] file_at_File None simp del: map_of_append)
    next
      case (Some c)
      then obtain x where c: "c = File x" and r: "nd' = Dir (AList.update n (File b) es)"
        using 3 by (cases c) auto
      show ?thesis unfolding r Cons
        by (auto simp: file_at_Cons map_of_update_conv file_at_File Some c)
    qed
  qed
next
  case (4 es n m p b)
  show ?case
  proof (cases q)
    case Nil
    then show ?thesis using 4(3)
      by (auto simp: file_at_Nil_Dir split: option.splits sum.splits)
  next
    case (Cons k q')
    show ?thesis
    proof (cases "map_of es n")
      case None
      then obtain c where e: "extract_member (Dir []) (m # p) b = Inr c"
        and r: "nd' = Dir (es @ [(n, c)])"
        using 4(3) by (auto split: sum.splits)
      have ih: "file_at c q' = (if q' = m # p then Some b else file_at (Dir []) q')"
        by (rule 4(1)[OF None e])
      have z: "file_at (Dir []) q' = None" by (cases q') (simp_all add: file_at_def)
      show ?thesis unfolding r Cons
        using ih z by (auto simp add: file_at_Cons map_of_snoc_fresh[OF None] None simp del: map_of_append)
    next
      case (Some c0)
      then obtain c where e: "extract_member c0 (m # p) b = Inr c"
        and r: "nd' = Dir (AList.update n c es)"
        using 4(3) by (auto split: sum.splits)
      have ih: "file_at c q' = (if q' = m # p then Some b else file_at c0 q')"
        by (rule 4(2)[OF Some e])
      show ?thesis unfolding r Cons
        using ih by (auto simp: file_at_Cons map_of_update_conv Some)
    qed
  qed
qed

lemma extract_member_dir_at:
  "extract_member nd p b = Inr nd' \<Longrightarrow>
   dir_at nd' q = (dir_at nd q \<or> strict_prefix q p)"
proof (induction nd p b arbitrary: nd' q rule: extract_member.induct)
  case (1 nd b)
  then show ?case by simp
next
  case (2 x n p b)
  then show ?case by simp
next
  case (3 es n b)
  show ?case
  proof (cases q)
    case Nil
    then show ?thesis using 3 by (auto simp: dir_at_Nil split: option.splits node.splits)
  next
    case (Cons k q')
    show ?thesis
    proof (cases "map_of es n")
      case None
      then have r: "nd' = Dir (es @ [(n, File b)])" using 3 by simp
      show ?thesis unfolding r Cons
        by (auto simp add: dir_at_Cons map_of_snoc_fresh[OF None] dir_at_File None simp del: map_of_append)
    next
      case (Some c)
      then obtain x where c: "c = File x" and r: "nd' = Dir (AList.update n (File b) es)"
        using 3 by (cases c) auto
      show ?thesis unfolding r Cons
        by (auto simp: dir_at_Cons map_of_update_conv dir_at_File Some c)
    qed
  qed
next
  case (4 es n m p b)
  show ?case
  proof (cases q)
    case Nil
    then show ?thesis using 4(3)
      by (auto simp: dir_at_Nil split: option.splits sum.splits)
  next
    case (Cons k q')
    show ?thesis
    proof (cases "map_of es n")
      case None
      then obtain c where e: "extract_member (Dir []) (m # p) b = Inr c"
        and r: "nd' = Dir (es @ [(n, c)])"
        using 4(3) by (auto split: sum.splits)
      have ih: "dir_at c q' = (dir_at (Dir []) q' \<or> strict_prefix q' (m # p))"
        by (rule 4(1)[OF None e])
      have z: "dir_at (Dir []) q' = (q' = [])" by (cases q') (simp_all add: dir_at_def)
      show ?thesis unfolding r Cons
        using ih z by (auto simp add: dir_at_Cons map_of_snoc_fresh[OF None] None simp del: map_of_append)
    next
      case (Some c0)
      then obtain c where e: "extract_member c0 (m # p) b = Inr c"
        and r: "nd' = Dir (AList.update n c es)"
        using 4(3) by (auto split: sum.splits)
      have ih: "dir_at c q' = (dir_at c0 q' \<or> strict_prefix q' (m # p))"
        by (rule 4(2)[OF Some e])
      have d0: "is_dir c0" using e by (cases c0) auto
      show ?thesis unfolding r Cons
        using ih d0 by (auto simp: dir_at_Cons map_of_update_conv Some dir_at_Nil)
    qed
  qed
qed

lemma extract_member_wf:
  "wf_node nd \<Longrightarrow> extract_member nd p b = Inr nd' \<Longrightarrow> wf_node nd' \<and> is_dir nd'"
proof (induction nd p b arbitrary: nd' rule: extract_member.induct)
  case (1 nd b)
  then show ?case by simp
next
  case (2 x n p b)
  then show ?case by simp
next
  case (3 es n b)
  have d: "distinct (map fst es)" and w: "\<forall>e\<in>set es. wf_node (snd e)"
    using 3(1) by (simp_all add: list_all_iff)
  show ?case
  proof (cases "map_of es n")
    case None
    then have r: "nd' = Dir (es @ [(n, File b)])" using 3 by simp
    have "n \<notin> set (map fst es)" using None by (simp add: map_of_eq_None_iff)
    then show ?thesis unfolding r using d w by (simp add: list_all_iff)
  next
    case (Some c)
    then have r: "nd' = Dir (AList.update n (File b) es)"
      using 3 by (cases c) auto
    have "\<forall>e\<in>set (AList.update n (File b) es). wf_node (snd e)"
      using set_update_subset[of n "File b" es] w by auto
    then show ?thesis unfolding r using d by (simp add: list_all_iff distinct_update)
  qed
next
  case (4 es n m p b)
  have d: "distinct (map fst es)" and w: "\<forall>e\<in>set es. wf_node (snd e)"
    using 4(3) by (simp_all add: list_all_iff)
  show ?case
  proof (cases "map_of es n")
    case None
    then obtain c where e: "extract_member (Dir []) (m # p) b = Inr c"
      and r: "nd' = Dir (es @ [(n, c)])"
      using 4(4) by (auto split: sum.splits)
    have wc: "wf_node c" using 4(1)[OF None _ e] by simp
    have "n \<notin> set (map fst es)" using None by (simp add: map_of_eq_None_iff)
    then show ?thesis unfolding r using d w wc by (simp add: list_all_iff)
  next
    case (Some c0)
    then obtain c where e: "extract_member c0 (m # p) b = Inr c"
      and r: "nd' = Dir (AList.update n c es)"
      using 4(4) by (auto split: sum.splits)
    have "wf_node c0" using w Some by (auto dest!: map_of_SomeD)
    then have wc: "wf_node c" using 4(2)[OF Some _ e] by simp
    have "\<forall>e\<in>set (AList.update n c es). wf_node (snd e)"
      using set_update_subset[of n c es] w wc by auto
    then show ?thesis unfolding r using d by (simp add: list_all_iff distinct_update)
  qed
qed

lemma extract_member_total:
  "is_dir nd \<Longrightarrow> p \<noteq> [] \<Longrightarrow> \<forall>q. strict_prefix q p \<longrightarrow> file_at nd q = None \<Longrightarrow>
   \<not> dir_at nd p \<Longrightarrow> \<exists>nd'. extract_member nd p b = Inr nd'"
proof (induction nd p b rule: extract_member.induct)
  case (1 nd b)
  then show ?case by simp
next
  case (2 x n p b)
  then show ?case by simp
next
  case (3 es n b)
  have "\<And>ds. map_of es n \<noteq> Some (Dir ds)"
    using 3(4) by (auto simp: dir_at_Cons dir_at_Nil)
  then show ?case by (auto split: option.splits node.splits)
next
  case (4 es n m p b)
  show ?case
  proof (cases "map_of es n")
    case None
    have "\<exists>c. extract_member (Dir []) (m # p) b = Inr c"
    proof (rule 4(1)[OF None])
      show "is_dir (Dir [])" by simp
      show "m # p \<noteq> []" by simp
      show "\<forall>q. strict_prefix q (m # p) \<longrightarrow> file_at (Dir []) q = None"
      proof (intro allI impI)
        fix q show "file_at (Dir []) q = None" by (cases q) (simp_all add: file_at_def)
      qed
      show "\<not> dir_at (Dir []) (m # p)" by (simp add: dir_at_Cons)
    qed
    then show ?thesis using None by auto
  next
    case (Some c0)
    have "strict_prefix [n] (n # m # p)" by (simp add: strict_prefix_def)
    then have "file_at (Dir es) [n] = None" using 4(5) by blast
    then have d0: "is_dir c0" using Some by (cases c0) (simp_all add: file_at_Cons file_at_File)
    have "\<exists>c. extract_member c0 (m # p) b = Inr c"
    proof (rule 4(2)[OF Some d0])
      show "m # p \<noteq> []" by simp
      show "\<forall>q. strict_prefix q (m # p) \<longrightarrow> file_at c0 q = None"
      proof (intro allI impI)
        fix q assume "strict_prefix q (m # p)"
        then have "strict_prefix (n # q) (n # m # p)" by (simp add: strict_prefix_def)
        then have "file_at (Dir es) (n # q) = None" using 4(5) by blast
        then show "file_at c0 q = None" using Some by (simp add: file_at_Cons)
      qed
      show "\<not> dir_at c0 (m # p)" using 4(6) Some by (simp add: dir_at_Cons)
    qed
    then show ?thesis using Some by auto
  qed
qed

lemma below_file:
  assumes "file_at fs q = Some x" and "strict_prefix q p"
  shows "lookup fs p = None"
proof -
  obtain r where r: "p = q @ r" "r \<noteq> []"
    using assms(2) by (auto simp: strict_prefix_def prefix_def)
  have "lookup fs q = Some (File x)"
    using assms(1) by (auto simp: file_at_def split: option.splits node.splits)
  then show ?thesis using r by (cases r) (simp_all add: lookup_append)
qed

lemma above_file:
  assumes "file_at fs p = Some b" and "strict_prefix q p"
  shows "dir_at fs q"
proof -
  obtain r where r: "p = q @ r" "r \<noteq> []"
    using assms(2) by (auto simp: strict_prefix_def prefix_def)
  have l: "lookup fs (q @ r) = Some (File b)"
    using assms(1) r by (auto simp: file_at_def split: option.splits node.splits)
  then obtain c where c: "lookup fs q = Some c" "lookup c r = Some (File b)"
    by (auto simp: lookup_append split: option.splits)
  have "is_dir c" using c(2) r(2) by (cases c; cases r) simp_all
  then show ?thesis using c(1) by (cases c) (simp_all add: dir_at_def)
qed

text \<open>
  The members of the archive, extracted one after the other into a tree that has only
  files and directories of \<open>fs\<close>, when every member is a file of \<open>fs\<close>.
\<close>

lemma extract_members_ok:
  assumes fs: "is_dir fs"
  shows "wf_node nd \<Longrightarrow> is_dir nd \<Longrightarrow>
    \<forall>q b. file_at nd q = Some b \<longrightarrow> file_at fs q = Some b \<Longrightarrow>
    \<forall>q. dir_at nd q \<longrightarrow> dir_at fs q \<Longrightarrow>
    \<forall>m\<in>set ms. file_at fs (fst m) = Some (snd m) \<Longrightarrow>
    \<exists>nd'. extract_members nd ms = Inr nd' \<and> wf_node nd'
      \<and> (\<forall>q b. file_at nd' q = Some b \<longrightarrow> file_at fs q = Some b)
      \<and> (\<forall>q. file_at nd q \<noteq> None \<longrightarrow> file_at nd' q \<noteq> None)
      \<and> (\<forall>m\<in>set ms. file_at nd' (fst m) \<noteq> None)
      \<and> (\<forall>q. dir_at nd' q = (dir_at nd q \<or> (\<exists>m\<in>set ms. strict_prefix q (fst m))))"
proof (induction ms arbitrary: nd)
  case Nil
  then show ?case by simp
next
  case (Cons m ms)
  obtain p b where m: "m = (p, b)" by (cases m)
  have fp: "file_at fs p = Some b" using Cons.prems(5) m by simp
  have pn: "p \<noteq> []"
  proof
    assume "p = []"
    then show False using fp fs by (cases fs) (simp_all add: file_at_def)
  qed
  have c1: "\<forall>q. strict_prefix q p \<longrightarrow> file_at nd q = None"
  proof (intro allI impI)
    fix q assume sp: "strict_prefix q p"
    show "file_at nd q = None"
    proof (cases "file_at nd q")
      case None
      then show ?thesis .
    next
      case (Some x)
      then have "file_at fs q = Some x" using Cons.prems(3) by blast
      then have "lookup fs p = None" using sp by (rule below_file)
      then show ?thesis using fp by (simp add: file_at_def)
    qed
  qed
  have c2: "\<not> dir_at nd p"
  proof
    assume "dir_at nd p"
    then have "dir_at fs p" using Cons.prems(4) by blast
    then show False using fp by (auto simp: dir_at_def file_at_def split: option.splits node.splits)
  qed
  obtain nd1 where e: "extract_member nd p b = Inr nd1"
    using extract_member_total[OF Cons.prems(2) pn c1 c2] by blast
  note fa = extract_member_file_at[OF e]
  note da = extract_member_dir_at[OF e]
  have w1: "wf_node nd1" "is_dir nd1" using extract_member_wf[OF Cons.prems(1) e] by simp_all
  have f1: "\<forall>q x. file_at nd1 q = Some x \<longrightarrow> file_at fs q = Some x"
    using fa fp Cons.prems(3) by (auto split: if_splits)
  have d1: "\<forall>q. dir_at nd1 q \<longrightarrow> dir_at fs q"
    using da Cons.prems(4) above_file[OF fp] by auto
  have r1: "\<forall>m\<in>set ms. file_at fs (fst m) = Some (snd m)" using Cons.prems(5) by simp
  from Cons.IH[OF w1 f1 d1 r1] obtain nd' where
    h: "extract_members nd1 ms = Inr nd'" "wf_node nd'"
      "\<forall>q b. file_at nd' q = Some b \<longrightarrow> file_at fs q = Some b"
      "\<forall>q. file_at nd1 q \<noteq> None \<longrightarrow> file_at nd' q \<noteq> None"
      "\<forall>m\<in>set ms. file_at nd' (fst m) \<noteq> None"
      "\<forall>q. dir_at nd' q = (dir_at nd1 q \<or> (\<exists>m\<in>set ms. strict_prefix q (fst m)))"
    by blast
  have g1: "extract_members nd (m # ms) = Inr nd'" using e h(1) m by simp
  have g2: "\<forall>q. file_at nd q \<noteq> None \<longrightarrow> file_at nd' q \<noteq> None"
    using h(4) fa by auto
  have g3: "\<forall>m'\<in>set (m # ms). file_at nd' (fst m') \<noteq> None"
    using h(4) h(5) fa m by auto
  have g4: "\<forall>q. dir_at nd' q = (dir_at nd q \<or> (\<exists>m'\<in>set (m # ms). strict_prefix q (fst m')))"
    using h(6) da m by auto
  show ?case using g1 h(2) h(3) g2 g3 g4 by blast
qed

lemma files_of_entries:
  "((p, b) \<in> set (concat (map (\<lambda>e. case snd e of File b \<Rightarrow> [(root @ [fst e], b)]
       | Dir ds \<Rightarrow> []) es)))
   = (\<exists>n. (n, File b) \<in> set es \<and> p = root @ [n])"
  by (induction es) (auto split: node.splits)

lemma zip_walk_set:
  "wf_node nd \<Longrightarrow> is_dir nd \<Longrightarrow>
   ((p, b) \<in> set (zip_walk root nd)) = (\<exists>q. p = root @ q \<and> file_at nd q = Some b)"
proof (induction root nd arbitrary: p rule: zip_walk.induct)
  case (1 root x)
  then show ?case by simp
next
  case (2 root es)
  have d: "distinct (map fst es)" and w: "\<forall>e\<in>set es. wf_node (snd e)"
    using 2(2) by (simp_all add: list_all_iff)
  have mo: "\<And>n c. (map_of es n = Some c) = ((n, c) \<in> set es)"
    using d by simp
  have ih: "\<And>e p. e \<in> set es \<Longrightarrow> is_dir (snd e) \<Longrightarrow>
      ((p, b) \<in> set (zip_walk (root @ [fst e]) (snd e)))
        = (\<exists>q. p = (root @ [fst e]) @ q \<and> file_at (snd e) q = Some b)"
    using 2(1) w by simp
  show ?case
  proof
    assume "(p, b) \<in> set (zip_walk root (Dir es))"
    then consider (f) n where "(n, File b) \<in> set es" "p = root @ [n]"
      | (s) e where "e \<in> set es" "is_dir (snd e)" "(p, b) \<in> set (zip_walk (root @ [fst e]) (snd e))"
      by (auto simp: files_of_entries)
    then show "\<exists>q. p = root @ q \<and> file_at (Dir es) q = Some b"
    proof cases
      case f
      then have "map_of es n = Some (File b)" using mo by simp
      then have "file_at (Dir es) [n] = Some b" by (simp add: file_at_Cons file_at_File)
      then show ?thesis using f(2) by blast
    next
      case s
      then obtain q where q: "p = (root @ [fst e]) @ q" "file_at (snd e) q = Some b"
        using ih by blast
      have "map_of es (fst e) = Some (snd e)" using mo[of "fst e" "snd e"] s(1) by simp
      then have "file_at (Dir es) (fst e # q) = Some b" using q(2) by (simp add: file_at_Cons)
      then show ?thesis using q(1) by (intro exI[of _ "fst e # q"]) simp
    qed
  next
    assume "\<exists>q. p = root @ q \<and> file_at (Dir es) q = Some b"
    then obtain q where q: "p = root @ q" "file_at (Dir es) q = Some b" by blast
    then obtain k q' where k: "q = k # q'" by (cases q) (simp_all add: file_at_Nil_Dir)
    then obtain c where c: "map_of es k = Some c" "file_at c q' = Some b"
      using q(2) by (auto simp: file_at_Cons split: option.splits)
    have m: "(k, c) \<in> set es" using c(1) mo by simp
    show "(p, b) \<in> set (zip_walk root (Dir es))"
    proof (cases c)
      case (File x)
      then have "q' = []" "x = b" using c(2) by (auto simp: file_at_File split: if_splits)
      then have "(k, File b) \<in> set es" "p = root @ [k]" using m File q(1) k by simp_all
      then show ?thesis using files_of_entries[of p b root es] by auto
    next
      case (Dir ds)
      then have "is_dir (snd (k, c))" by simp
      then have "(p, b) \<in> set (zip_walk (root @ [fst (k, c)]) (snd (k, c)))"
        using ih[OF m, of p] c(2) q(1) k by auto
      then show ?thesis using m Dir by force
    qed
  qed
qed

lemma round_trip:
  assumes wf: "wf_node fs" and d: "is_dir fs"
  shows "\<exists>fs'. extractall (repackage fs) = Inr fs' \<and> wf_node fs'
            \<and> (\<forall>p. file_at fs' p = file_at fs p)
            \<and> (\<forall>q. dir_at fs' q = (q = [] \<or> (\<exists>p b. strict_prefix q p \<and> file_at fs p = Some b)))"
proof -
  have zs: "\<And>p b. ((p, b) \<in> set (repackage fs)) = (file_at fs p = Some b)"
    using zip_walk_set[OF wf d, of _ _ "[]"] by (simp add: repackage_def)
  have e0: "\<forall>q b. file_at (Dir []) q = Some b \<longrightarrow> file_at fs q = Some b"
  proof (intro allI impI)
    fix q b assume "file_at (Dir []) q = Some b"
    then show "file_at fs q = Some b" by (cases q) (simp_all add: file_at_def)
  qed
  have dn: "\<And>q. dir_at (Dir []) q = (q = [])"
  proof -
    fix q show "dir_at (Dir []) q = (q = [])" by (cases q) (simp_all add: dir_at_def)
  qed
  have e1: "\<forall>q. dir_at (Dir []) q \<longrightarrow> dir_at fs q"
    using dn d by (simp add: dir_at_Nil)
  have e2: "\<forall>m\<in>set (repackage fs). file_at fs (fst m) = Some (snd m)"
    using zs by auto
  from extract_members_ok[OF d _ _ e0 e1 e2] obtain fs' where
    h: "extract_members (Dir []) (repackage fs) = Inr fs'" "wf_node fs'"
      "\<forall>q b. file_at fs' q = Some b \<longrightarrow> file_at fs q = Some b"
      "\<forall>m\<in>set (repackage fs). file_at fs' (fst m) \<noteq> None"
      "\<forall>q. dir_at fs' q = (dir_at (Dir []) q \<or> (\<exists>m\<in>set (repackage fs). strict_prefix q (fst m)))"
    by auto
  have f: "\<forall>p. file_at fs' p = file_at fs p"
  proof
    fix p show "file_at fs' p = file_at fs p"
    proof (cases "file_at fs p")
      case None
      then show ?thesis using h(3) by (cases "file_at fs' p") auto
    next
      case (Some b)
      then have "(p, b) \<in> set (repackage fs)" using zs by simp
      then have "file_at fs' p \<noteq> None" using h(4) by force
      then show ?thesis using h(3) Some by auto
    qed
  qed
  have g: "\<forall>q. dir_at fs' q = (q = [] \<or> (\<exists>p b. strict_prefix q p \<and> file_at fs p = Some b))"
  proof
    fix q
    have "(\<exists>m\<in>set (repackage fs). strict_prefix q (fst m))
        = (\<exists>p b. strict_prefix q p \<and> file_at fs p = Some b)"
      using zs by (metis fst_conv prod.collapse)
    then show "dir_at fs' q = (q = [] \<or> (\<exists>p b. strict_prefix q p \<and> file_at fs p = Some b))"
      using h(5) dn by simp
  qed
  show ?thesis using h(1,2) f g by (auto simp: extractall_def)
qed

text \<open>The two passes keep the names of every directory distinct.\<close>

lemma wf_update_at:
  "wf_node fs \<Longrightarrow> wf_node new \<Longrightarrow> wf_node (update_at fs p new)"
proof (induction fs p new rule: update_at.induct)
  case (1 nd new)
  then show ?case by simp
next
  case (2 b n p new)
  then show ?case by simp
next
  case (3 es n p new)
  have d: "distinct (map fst es)" and w: "\<forall>e\<in>set es. wf_node (snd e)"
    using 3(2) by (simp_all add: list_all_iff)
  let ?f = "\<lambda>e. if fst e = n then (fst e, update_at (snd e) p new) else e"
  have a: "\<forall>e\<in>set es. wf_node (snd (?f e))"
    using 3(1) 3(3) w by auto
  have e: "map fst (map ?f es) = map fst es"
    by (rule map_fst_update_entries[where f = "\<lambda>c. update_at c p new"])
  have "distinct (map fst (map ?f es))" unfolding e by (rule d)
  moreover have "list_all (\<lambda>e. wf_node (snd e)) (map ?f es)"
    using a by (auto simp: list_all_iff)
  ultimately show ?case by (simp only: update_at.simps wf_node.simps)
qed

lemma is_dir_update_at:
  "is_dir (update_at fs p new) = (if p = [] then is_dir new else is_dir fs)"
  by (cases p; cases fs) simp_all

lemma wf_walk:
  "walkA fails root nd s = (nd', s') \<Longrightarrow> wf_node nd \<Longrightarrow> wf_node nd' \<and> is_dir nd' = is_dir nd"
  "descendA fails root es1 ds acc s = (acc', s') \<Longrightarrow> \<forall>c\<in>snd ` set es1. wf_node c \<Longrightarrow>
     distinct (map fst acc) \<Longrightarrow> \<forall>c\<in>snd ` set acc. wf_node c \<Longrightarrow>
     distinct (map fst acc') \<and> (\<forall>c\<in>snd ` set acc'. wf_node c)"
proof (induction fails root nd s and fails root es1 ds acc s
    arbitrary: nd' s' and acc' s' rule: walkA_descendA.induct)
  case (1 fails root b s)
  then show ?case by auto
next
  case (2 fails root es s)
  obtain es1 dirs1 s1 where l: "folder_loop fails root es (s\<lparr>visited := visited s @ [root]\<rparr>) = (es1, dirs1, s1)"
    by (cases "folder_loop fails root es (s\<lparr>visited := visited s @ [root]\<rparr>)") auto
  obtain es2 s2 where d: "descendA fails root es1 dirs1 es1 s1 = (es2, s2)"
    by (cases "descendA fails root es1 dirs1 es1 s1") auto
  have r: "nd' = Dir es2" using 2(2) l d by simp
  have wf: "distinct (map fst es)" using 2(3) by simp
  note F = folder_loop_facts[OF wf l]
  have c: "\<forall>c\<in>snd ` set es1. wf_node c" by (rule wf_children[OF 2(3) F(4)])
  have "distinct (map fst es2) \<and> (\<forall>c\<in>snd ` set es2. wf_node c)"
    by (rule 2(1)[OF l[symmetric] refl d c F(3) c])
  then show ?case unfolding r by (auto simp: list_all_iff)
next
  case (3 fails root es1 acc s)
  then show ?case by simp
next
  case (4 fails root es1 d ds acc s)
  show ?case
  proof (cases "map_of es1 d")
    case None
    then have r: "descendA fails root es1 ds acc s = (acc', s')" using 4(4) by simp
    show ?thesis by (rule 4(1)[OF None r 4(5) 4(6) 4(7)])
  next
    case (Some c)
    obtain c' s1 where w: "walkA fails (root @ [d]) c s = (c', s1)"
      by (cases "walkA fails (root @ [d]) c s") auto
    have r: "descendA fails root es1 ds (AList.update d c' acc) s1 = (acc', s')"
      using 4(4) Some w by simp
    have wfc: "wf_node c" using 4(5) map_of_SomeD[OF Some] by force
    have wc': "wf_node c'" using 4(2)[OF Some w wfc] by simp
    have a1: "distinct (map fst (AList.update d c' acc))" using 4(6) by (simp add: distinct_update)
    have a2: "\<forall>x\<in>snd ` set (AList.update d c' acc). wf_node x"
      using set_update_subset[of d c' acc] 4(7) wc' by auto
    show ?thesis by (rule 4(3)[OF Some w[symmetric] r 4(5) a1 a2])
  qed
qed

lemma passA_wf:
  assumes "wf_node fs" and "is_dir fs" and "passA fails fs base_path = (fs1, sA)"
  shows "wf_node fs1 \<and> is_dir fs1"
proof (cases "lookup fs base_path")
  case None
  then show ?thesis using assms by (simp add: passA_def)
next
  case (Some nd)
  obtain nd' s where w: "walkA fails base_path nd initA = (nd', s)"
    by (cases "walkA fails base_path nd initA") auto
  have r: "fs1 = update_at fs base_path nd'" using assms(3) Some w by (simp add: passA_def)
  have "wf_node nd" by (rule wf_lookup[OF assms(1) Some])
  then have n: "wf_node nd'" "is_dir nd' = is_dir nd" using wf_walk(1)[OF w] by simp_all
  have "is_dir (update_at fs base_path nd')"
  proof (cases base_path)
    case Nil
    then have "nd = fs" using Some by simp
    then show ?thesis using n(2) assms(2) Nil by simp
  next
    case (Cons a p)
    then show ?thesis using assms(2) by (simp add: is_dir_update_at)
  qed
  then show ?thesis unfolding r using wf_update_at[OF assms(1) n(1)] by simp
qed

lemma file_step_distinct:
  assumes "distinct (map fst es)"
  shows "distinct (map fst (fst (file_step fails q f (es, s))))"
proof (cases "file_new_name f")
  case None
  then show ?thesis using assms by (simp add: file_step_None)
next
  case (Some y)
  have fy: "f \<noteq> y" using Some file_new_name_idem[OF Some] by auto
  show ?thesis
  proof (cases "os_rename fails q es f y")
    case (Inl e)
    then show ?thesis using assms by (simp add: file_step_Some[OF Some])
  next
    case (Inr c)
    then show ?thesis using os_rename_map(1)[OF assms Inr fy] by (simp add: file_step_Some[OF Some])
  qed
qed

lemma file_loop_distinct:
  "distinct (map fst es) \<Longrightarrow> fold (file_step fails q) names (es, s) = (es', s') \<Longrightarrow>
   distinct (map fst es')"
proof (induction names arbitrary: es s)
  case Nil
  then show ?case by simp
next
  case (Cons f names)
  obtain es1 s1 where r: "file_step fails q f (es, s) = (es1, s1)"
    by (cases "file_step fails q f (es, s)") auto
  have a: "distinct (map fst es1)"
    using file_step_distinct[OF Cons.prems(1), of fails q f s] r by simp
  have "fold (file_step fails q) names (es1, s1) = (es', s')" using Cons.prems(2) r by simp
  from Cons.IH[OF a this] show ?case .
qed

lemma passB_loop_wf:
  "wf_node fs \<Longrightarrow> is_dir fs \<Longrightarrow> passB_loop fails ps (fs, s) = Inr (fs2, s2) \<Longrightarrow>
   wf_node fs2 \<and> is_dir fs2"
proof (induction ps arbitrary: fs s)
  case Nil
  then show ?case by simp
next
  case (Cons q ps)
  let ?s = "s\<lparr>logB := logB s @ [ScanningFolder (last q)], scanned := scanned s @ [q]\<rparr>"
  from Cons.prems(3) obtain es where es: "lookup fs q = Some (Dir es)"
    by (auto simp: Let_def os_listdir_def split: option.splits node.splits sum.splits)
  obtain es' s' where f: "fold (file_step fails q) (map fst es) (es, ?s) = (es', s')"
    by (cases "fold (file_step fails q) (map fst es) (es, ?s)") auto
  have r: "passB_loop fails ps (update_at fs q (Dir es'), s') = Inr (fs2, s2)"
    using Cons.prems(3) es f by (simp add: Let_def os_listdir_def)
  have w: "wf_node (Dir es)" by (rule wf_lookup[OF Cons.prems(1) es])
  then have d: "distinct (map fst es)" and c: "\<forall>x\<in>set (map snd es). wf_node x"
    by (simp_all add: list_all_iff)
  have d': "distinct (map fst es')" by (rule file_loop_distinct[OF d f])
  have "set (map snd es') \<subseteq> set (map snd es)" by (rule file_loop_nodes[OF f])
  then have "\<forall>x\<in>set (map snd es'). wf_node x" using c by blast
  then have w': "wf_node (Dir es')" using d' by (simp add: list_all_iff)
  have a: "wf_node (update_at fs q (Dir es'))" by (rule wf_update_at[OF Cons.prems(1) w'])
  have b: "is_dir (update_at fs q (Dir es'))" using Cons.prems(2) by (simp add: is_dir_update_at)
  show ?case by (rule Cons.IH[OF a b r])
qed

lemma pipeline_wf:
  assumes "wf_node fs0" and "is_dir fs0" and "pipeline fails fs0 = Inr (fs2, ar)"
  shows "ar = repackage fs2" and "wf_node fs2" and "is_dir fs2"
proof -
  obtain fs1 sA where a: "passA fails fs0 (detect_base fs0) = (fs1, sA)"
    by (cases "passA fails fs0 (detect_base fs0)") auto
  obtain sB where b: "passB fails fs1 sA = Inr (fs2, sB)" and r: "ar = repackage fs2"
    using assms(3) a by (auto simp: pipeline_def Let_def split: sum.splits)
  have w1: "wf_node fs1" "is_dir fs1" using passA_wf[OF assms(1,2) a] by simp_all
  have "wf_node fs2 \<and> is_dir fs2"
    using b unfolding passB_def Let_def by (rule passB_loop_wf[OF w1])
  then show "ar = repackage fs2" and "wf_node fs2" and "is_dir fs2" using r by simp_all
qed

text \<open>
  C5, as amended. The archive of a tree whose directories have distinct names holds
  exactly the files of the tree, each under its path from the extraction root with its
  bytes. Extracting that archive succeeds and gives a tree with the same files, the same
  paths and the same bytes; its directories are the root and the directories of the tree
  that have a file somewhere below them. The run keeps the names of every directory
  distinct, its archive is the archive of the whole working directory, and extracting
  it gives the files of the working directory.
\<close>

theorem C5_round_trip_of_files:
  "(wf_node fs \<and> is_dir fs \<longrightarrow>
       (\<forall>p b. ((p, b) \<in> set (repackage fs)) = (file_at fs p = Some b))
       \<and> (\<exists>fs'. extractall (repackage fs) = Inr fs' \<and> wf_node fs'
            \<and> (\<forall>p. file_at fs' p = file_at fs p)
            \<and> (\<forall>q. dir_at fs' q
                 = (q = [] \<or> (\<exists>p b. strict_prefix q p \<and> file_at fs p = Some b)))))
   \<and> (wf_node fs0 \<and> is_dir fs0 \<and> pipeline fails fs0 = Inr (fs2, ar) \<longrightarrow>
       ar = repackage fs2 \<and> wf_node fs2 \<and> is_dir fs2
       \<and> (\<exists>fs'. extractall ar = Inr fs' \<and> (\<forall>p. file_at fs' p = file_at fs2 p)))"
proof (intro conjI impI)
  assume a: "wf_node fs \<and> is_dir fs"
  then have wf: "wf_node fs" and d: "is_dir fs" by blast+
  show "\<forall>p b. ((p, b) \<in> set (repackage fs)) = (file_at fs p = Some b)"
    using zip_walk_set[OF wf d, of _ _ "[]"] by (simp add: repackage_def)
  show "\<exists>fs'. extractall (repackage fs) = Inr fs' \<and> wf_node fs'
            \<and> (\<forall>p. file_at fs' p = file_at fs p)
            \<and> (\<forall>q. dir_at fs' q
                 = (q = [] \<or> (\<exists>p b. strict_prefix q p \<and> file_at fs p = Some b)))"
    by (rule round_trip[OF wf d])
next
  assume a: "wf_node fs0 \<and> is_dir fs0 \<and> pipeline fails fs0 = Inr (fs2, ar)"
  then have wf: "wf_node fs0" and d: "is_dir fs0" and p: "pipeline fails fs0 = Inr (fs2, ar)"
    by blast+
  note w = pipeline_wf[OF wf d p]
  show "ar = repackage fs2" by (rule w(1))
  show "wf_node fs2" by (rule w(2))
  show "is_dir fs2" by (rule w(3))
  show "\<exists>fs'. extractall ar = Inr fs' \<and> (\<forall>p. file_at fs' p = file_at fs2 p)"
    using round_trip[OF w(2) w(3)] w(1) by blast
qed


theorem C5_round_trip_of_files_witness:
  "wf_node (Dir [(''AC1'', Dir [(''S03A0010095.pdf'', File ''x''), (''e'', Dir [])]), (''z'', File ''w'')]) \<and> is_dir (Dir [(''AC1'', Dir [(''S03A0010095.pdf'', File ''x''), (''e'', Dir [])]), (''z'', File ''w'')])
   \<and> pipeline (\<lambda>p. False) (Dir [(''AC1'', Dir [(''S03A0010095.pdf'', File ''x''), (''e'', Dir [])]), (''z'', File ''w'')]) = Inr ((Dir [(''1'', Dir [(''S03_1_95.pdf'', File ''x''), (''e'', Dir [])]), (''z'', File ''w'')]), [([''z''], ''w''), ([''1'', ''S03_1_95.pdf''], ''x'')])
   \<and> [([''z''], ''w''), ([''1'', ''S03_1_95.pdf''], ''x'')] = repackage (Dir [(''1'', Dir [(''S03_1_95.pdf'', File ''x''), (''e'', Dir [])]), (''z'', File ''w'')])
   \<and> wf_node (Dir [(''1'', Dir [(''S03_1_95.pdf'', File ''x''), (''e'', Dir [])]), (''z'', File ''w'')]) \<and> is_dir (Dir [(''1'', Dir [(''S03_1_95.pdf'', File ''x''), (''e'', Dir [])]), (''z'', File ''w'')])
   \<and> ([''1'', ''S03_1_95.pdf''], ''x'') \<in> set (repackage (Dir [(''1'', Dir [(''S03_1_95.pdf'', File ''x''), (''e'', Dir [])]), (''z'', File ''w'')]))
   \<and> file_at (Dir [(''1'', Dir [(''S03_1_95.pdf'', File ''x''), (''e'', Dir [])]), (''z'', File ''w'')]) [''1'', ''S03_1_95.pdf''] = Some ''x''
   \<and> extractall (repackage (Dir [(''1'', Dir [(''S03_1_95.pdf'', File ''x''), (''e'', Dir [])]), (''z'', File ''w'')])) = Inr (Dir [(''z'', File ''w''), (''1'', Dir [(''S03_1_95.pdf'', File ''x'')])])
   \<and> wf_node (Dir [(''z'', File ''w''), (''1'', Dir [(''S03_1_95.pdf'', File ''x'')])])
   \<and> file_at (Dir [(''z'', File ''w''), (''1'', Dir [(''S03_1_95.pdf'', File ''x'')])]) [''1'', ''S03_1_95.pdf''] = file_at (Dir [(''1'', Dir [(''S03_1_95.pdf'', File ''x''), (''e'', Dir [])]), (''z'', File ''w'')]) [''1'', ''S03_1_95.pdf'']
   \<and> file_at (Dir [(''z'', File ''w''), (''1'', Dir [(''S03_1_95.pdf'', File ''x'')])]) [''z''] = file_at (Dir [(''1'', Dir [(''S03_1_95.pdf'', File ''x''), (''e'', Dir [])]), (''z'', File ''w'')]) [''z'']
   \<and> dir_at (Dir [(''z'', File ''w''), (''1'', Dir [(''S03_1_95.pdf'', File ''x'')])]) [''1'']
   \<and> (\<exists>fs'. extractall [([''z''], ''w''), ([''1'', ''S03_1_95.pdf''], ''x'')] = Inr fs' \<and> file_at fs' [''1'', ''S03_1_95.pdf''] = file_at (Dir [(''1'', Dir [(''S03_1_95.pdf'', File ''x''), (''e'', Dir [])]), (''z'', File ''w'')]) [''1'', ''S03_1_95.pdf''])"
proof -
  have h0: "wf_node (Dir [(''AC1'', Dir [(''S03A0010095.pdf'', File ''x''), (''e'', Dir [])]), (''z'', File ''w'')])" "is_dir (Dir [(''AC1'', Dir [(''S03A0010095.pdf'', File ''x''), (''e'', Dir [])]), (''z'', File ''w'')])" by simp_all
  have h1: "pipeline (\<lambda>p. False) (Dir [(''AC1'', Dir [(''S03A0010095.pdf'', File ''x''), (''e'', Dir [])]), (''z'', File ''w'')]) = Inr ((Dir [(''1'', Dir [(''S03_1_95.pdf'', File ''x''), (''e'', Dir [])]), (''z'', File ''w'')]), [([''z''], ''w''), ([''1'', ''S03_1_95.pdf''], ''x'')])" by code_simp
  have h2: "file_at (Dir [(''1'', Dir [(''S03_1_95.pdf'', File ''x''), (''e'', Dir [])]), (''z'', File ''w'')]) [''1'', ''S03_1_95.pdf''] = Some ''x''" by (simp add: file_at_def)
  have h3: "extractall (repackage (Dir [(''1'', Dir [(''S03_1_95.pdf'', File ''x''), (''e'', Dir [])]), (''z'', File ''w'')])) = Inr (Dir [(''z'', File ''w''), (''1'', Dir [(''S03_1_95.pdf'', File ''x'')])])" by code_simp
  have h4: "strict_prefix [''1''] [''1'', ''S03_1_95.pdf'']" by (simp add: strict_prefix_def)
  note T = C5_round_trip_of_files[where fs = "(Dir [(''1'', Dir [(''S03_1_95.pdf'', File ''x''), (''e'', Dir [])]), (''z'', File ''w'')])" and ?fs0.0 = "(Dir [(''AC1'', Dir [(''S03A0010095.pdf'', File ''x''), (''e'', Dir [])]), (''z'', File ''w'')])"
      and ?fs2.0 = "(Dir [(''1'', Dir [(''S03_1_95.pdf'', File ''x''), (''e'', Dir [])]), (''z'', File ''w'')])" and ar = "[([''z''], ''w''), ([''1'', ''S03_1_95.pdf''], ''x'')]" and fails = "\<lambda>p. False"]
  note T2 = T[THEN conjunct2, THEN mp, OF conjI[OF h0(1) conjI[OF h0(2) h1]]]
  have a: "[([''z''], ''w''), ([''1'', ''S03_1_95.pdf''], ''x'')] = repackage (Dir [(''1'', Dir [(''S03_1_95.pdf'', File ''x''), (''e'', Dir [])]), (''z'', File ''w'')])" "wf_node (Dir [(''1'', Dir [(''S03_1_95.pdf'', File ''x''), (''e'', Dir [])]), (''z'', File ''w'')])" "is_dir (Dir [(''1'', Dir [(''S03_1_95.pdf'', File ''x''), (''e'', Dir [])]), (''z'', File ''w'')])"
    using T2 by - ((elim conjE, assumption)+)
  have b: "\<exists>fs'. extractall [([''z''], ''w''), ([''1'', ''S03_1_95.pdf''], ''x'')] = Inr fs' \<and> (\<forall>p. file_at fs' p = file_at (Dir [(''1'', Dir [(''S03_1_95.pdf'', File ''x''), (''e'', Dir [])]), (''z'', File ''w'')]) p)"
    using T2 by - (elim conjE, assumption)
  note T1 = T[THEN conjunct1, THEN mp, OF conjI[OF a(2) a(3)]]
  have c0: "\<forall>p b. ((p, b) \<in> set (repackage (Dir [(''1'', Dir [(''S03_1_95.pdf'', File ''x''), (''e'', Dir [])]), (''z'', File ''w'')]))) = (file_at (Dir [(''1'', Dir [(''S03_1_95.pdf'', File ''x''), (''e'', Dir [])]), (''z'', File ''w'')]) p = Some b)"
    using T1 by - (elim conjE, assumption)
  have c: "([''1'', ''S03_1_95.pdf''], ''x'') \<in> set (repackage (Dir [(''1'', Dir [(''S03_1_95.pdf'', File ''x''), (''e'', Dir [])]), (''z'', File ''w'')]))"
    using c0 h2 by simp
  have "\<exists>fs'. extractall (repackage (Dir [(''1'', Dir [(''S03_1_95.pdf'', File ''x''), (''e'', Dir [])]), (''z'', File ''w'')])) = Inr fs' \<and> wf_node fs'
      \<and> (\<forall>p. file_at fs' p = file_at (Dir [(''1'', Dir [(''S03_1_95.pdf'', File ''x''), (''e'', Dir [])]), (''z'', File ''w'')]) p)
      \<and> (\<forall>q. dir_at fs' q = (q = [] \<or> (\<exists>p b. strict_prefix q p \<and> file_at (Dir [(''1'', Dir [(''S03_1_95.pdf'', File ''x''), (''e'', Dir [])]), (''z'', File ''w'')]) p = Some b)))"
    using T1 by - (elim conjE, assumption)
  then obtain fs' where e: "extractall (repackage (Dir [(''1'', Dir [(''S03_1_95.pdf'', File ''x''), (''e'', Dir [])]), (''z'', File ''w'')])) = Inr fs'" and w: "wf_node fs'"
    and f: "\<forall>p. file_at fs' p = file_at (Dir [(''1'', Dir [(''S03_1_95.pdf'', File ''x''), (''e'', Dir [])]), (''z'', File ''w'')]) p"
    and g: "\<forall>q. dir_at fs' q = (q = [] \<or> (\<exists>p b. strict_prefix q p \<and> file_at (Dir [(''1'', Dir [(''S03_1_95.pdf'', File ''x''), (''e'', Dir [])]), (''z'', File ''w'')]) p = Some b))"
    by blast
  have x: "fs' = (Dir [(''z'', File ''w''), (''1'', Dir [(''S03_1_95.pdf'', File ''x'')])])" using e h3 by simp
  have d1: "file_at (Dir [(''z'', File ''w''), (''1'', Dir [(''S03_1_95.pdf'', File ''x'')])]) [''1'', ''S03_1_95.pdf''] = file_at (Dir [(''1'', Dir [(''S03_1_95.pdf'', File ''x''), (''e'', Dir [])]), (''z'', File ''w'')]) [''1'', ''S03_1_95.pdf'']"
    "file_at (Dir [(''z'', File ''w''), (''1'', Dir [(''S03_1_95.pdf'', File ''x'')])]) [''z''] = file_at (Dir [(''1'', Dir [(''S03_1_95.pdf'', File ''x''), (''e'', Dir [])]), (''z'', File ''w'')]) [''z'']"
    using f x by simp_all
  have "\<exists>p b. strict_prefix [''1''] p \<and> file_at (Dir [(''1'', Dir [(''S03_1_95.pdf'', File ''x''), (''e'', Dir [])]), (''z'', File ''w'')]) p = Some b" using h2 h4 by blast
  then have "dir_at fs' [''1'']" using g by simp
  then have d2: "dir_at (Dir [(''z'', File ''w''), (''1'', Dir [(''S03_1_95.pdf'', File ''x'')])]) [''1'']" using x by simp
  have d3: "wf_node (Dir [(''z'', File ''w''), (''1'', Dir [(''S03_1_95.pdf'', File ''x'')])])" using w x by simp
  have b': "\<exists>fs'. extractall [([''z''], ''w''), ([''1'', ''S03_1_95.pdf''], ''x'')] = Inr fs' \<and> file_at fs' [''1'', ''S03_1_95.pdf''] = file_at (Dir [(''1'', Dir [(''S03_1_95.pdf'', File ''x''), (''e'', Dir [])]), (''z'', File ''w'')]) [''1'', ''S03_1_95.pdf'']"
    using b by blast
  show ?thesis
    by (intro conjI h0 h1 a c h2 h3 d3 d1 d2 b')
qed

text \<open>
  A directory with no file below it is not in the archive, so the extracted archive is not
  the working directory: the first tree has the empty directory \<open>e\<close> in a folder that is
  renamed, the second tree has the empty directory \<open>d\<close> and nothing to rename.
\<close>

theorem C5_empty_directory_lost:
  "pipeline (\<lambda>p. False) (Dir [(''AC1'', Dir [(''S03A0010095.pdf'', File ''x''), (''e'', Dir [])]), (''z'', File ''w'')]) = Inr ((Dir [(''1'', Dir [(''S03_1_95.pdf'', File ''x''), (''e'', Dir [])]), (''z'', File ''w'')]), [([''z''], ''w''), ([''1'', ''S03_1_95.pdf''], ''x'')])
   \<and> lookup (Dir [(''1'', Dir [(''S03_1_95.pdf'', File ''x''), (''e'', Dir [])]), (''z'', File ''w'')]) [''1'', ''e''] = Some (Dir [])
   \<and> extractall [([''z''], ''w''), ([''1'', ''S03_1_95.pdf''], ''x'')] = Inr (Dir [(''z'', File ''w''), (''1'', Dir [(''S03_1_95.pdf'', File ''x'')])])
   \<and> lookup (Dir [(''z'', File ''w''), (''1'', Dir [(''S03_1_95.pdf'', File ''x'')])]) [''1'', ''e''] = None
   \<and> pipeline (\<lambda>p. False) (Dir [(''d'', Dir []), (''z'', File ''w'')]) = Inr ((Dir [(''d'', Dir []), (''z'', File ''w'')]), [([''z''], ''w'')])
   \<and> lookup (Dir [(''d'', Dir []), (''z'', File ''w'')]) [''d''] = Some (Dir [])
   \<and> extractall [([''z''], ''w'')] = Inr (Dir [(''z'', File ''w'')])
   \<and> lookup (Dir [(''z'', File ''w'')]) [''d''] = None"
proof -
  have a1: "pipeline (\<lambda>p. False) (Dir [(''AC1'', Dir [(''S03A0010095.pdf'', File ''x''), (''e'', Dir [])]), (''z'', File ''w'')]) = Inr ((Dir [(''1'', Dir [(''S03_1_95.pdf'', File ''x''), (''e'', Dir [])]), (''z'', File ''w'')]), [([''z''], ''w''), ([''1'', ''S03_1_95.pdf''], ''x'')])" by code_simp
  have a2: "lookup (Dir [(''1'', Dir [(''S03_1_95.pdf'', File ''x''), (''e'', Dir [])]), (''z'', File ''w'')]) [''1'', ''e''] = Some (Dir [])" by simp
  have a3: "extractall [([''z''], ''w''), ([''1'', ''S03_1_95.pdf''], ''x'')] = Inr (Dir [(''z'', File ''w''), (''1'', Dir [(''S03_1_95.pdf'', File ''x'')])])" by code_simp
  have a4: "lookup (Dir [(''z'', File ''w''), (''1'', Dir [(''S03_1_95.pdf'', File ''x'')])]) [''1'', ''e''] = None" by simp
  have b1: "pipeline (\<lambda>p. False) (Dir [(''d'', Dir []), (''z'', File ''w'')]) = Inr ((Dir [(''d'', Dir []), (''z'', File ''w'')]), [([''z''], ''w'')])" by code_simp
  have b2: "lookup (Dir [(''d'', Dir []), (''z'', File ''w'')]) [''d''] = Some (Dir [])" by simp
  have b3: "extractall [([''z''], ''w'')] = Inr (Dir [(''z'', File ''w'')])" by code_simp
  have b4: "lookup (Dir [(''z'', File ''w'')]) [''d''] = None" by simp
  show ?thesis using a1 a2 a3 a4 b1 b2 b3 b4 by (intro conjI)
qed

end
